theory Spec2Isabelle
  imports Main "HOL-Library.Word" "HOL-Library.Multiset"
begin

section \<open>The CSR matrix of dgl/aten/csr.h\<close>

text \<open>
  The header \<^verbatim>\<open>include/dgl/aten/csr.h\<close> defines the struct \<^verbatim>\<open>CSRMatrix\<close> with its
  constructors, \<^verbatim>\<open>Load\<close>, \<^verbatim>\<open>Save\<close>, \<^verbatim>\<open>CheckValidity\<close> and \<^verbatim>\<open>CopyTo\<close>, the inline
  routines \<^verbatim>\<open>CSRHasData\<close>, \<^verbatim>\<open>CSRGetAllData\<close> and \<^verbatim>\<open>CSRSort\<close>, and the declarations of
  the other CSR routines, whose bodies live in other files.

  An \<^verbatim>\<open>IdArray\<close> is a reference-counted handle to a buffer that several matrices may
  share, and \<^verbatim>\<open>CSRSort_\<close> writes through such a handle. The embedding therefore keeps
  the buffers in an explicit store and lets a matrix hold addresses into it.
\<close>

subsection \<open>Buffers, handles and the store\<close>

text \<open>
  Modelled from the spec: the type declarations of \<^verbatim>\<open>types.h\<close> are missing. The spec
  (section 6) describes an index array as a shared buffer with an element type
  descriptor and a device/location tag. Of the element type the header reads \<^verbatim>\<open>.bits\<close>.
\<close>

record DLDataType =
  code :: nat
  bits :: nat
  lanes :: nat

text \<open>
  Modelled from the spec: the location tag of a buffer (\<^verbatim>\<open>DLContext\<close>, missing), compared
  for equality only.
\<close>

record DLContext =
  device_type :: nat
  device_id :: nat

text \<open>
  Modelled from the spec: of a tensor the header reads \<^verbatim>\<open>->dtype\<close>, \<^verbatim>\<open>->ctx\<close> and
  \<^verbatim>\<open>->shape[0]\<close>; \<^verbatim>\<open>shape[0]\<close> is the length of \<open>elems\<close>. The elements of an id array are
  32 or 64 bit integers, kept as the integers they denote.
\<close>

record DLTensor =
  dtype :: DLDataType
  ctx :: DLContext
  elems :: "int list"

text \<open>
  Modelled from the spec: \<^verbatim>\<open>IdArray\<close> (\<^verbatim>\<open>NDArray\<close>, missing) is a reference to a shared
  buffer. A handle is the address of a buffer in the store, or the null array.
\<close>

type_synonym IdArray = "nat option"

type_synonym store = "DLTensor list"

text \<open>
  A failed \<^verbatim>\<open>CHECK\<close> of the header is fatal. The faults are: reading through a handle
  without a buffer, the five kinds of check the header makes (those of \<^verbatim>\<open>Load\<close> with
  their messages), and the faults of the modelled routines.
\<close>

datatype fault =
    NullDeref
  | NotSameDType
  | NotSameContext
  | Overflow
  | CheckEqFailed
  | CheckFailed string
  | InvalidMatrix
  | ShapeMismatch
  | InvalidArgument

text \<open>
  Modelled from the spec: reading through a handle (\<^verbatim>\<open>operator->\<close> of \<^verbatim>\<open>NDArray\<close>,
  missing). A handle without a buffer cannot be read: \<open>deref\<close> gives none, and the
  routines turn that into the fault \<open>NullDeref\<close>.
\<close>

definition deref :: "store \<Rightarrow> IdArray \<Rightarrow> DLTensor option" where
  "deref s a = (case a of None \<Rightarrow> None
                | Some p \<Rightarrow> if p < length s then Some (s ! p) else None)"

text \<open>
  Modelled from the spec: the contents of the buffer behind a handle, if there is one.
\<close>

definition array_elems :: "store \<Rightarrow> IdArray \<Rightarrow> int list option" where
  "array_elems s a = map_option elems (deref s a)"

text \<open>
  Modelled from the spec: a new buffer (the allocation of \<^verbatim>\<open>NDArray\<close>, missing) is
  placed at the end of the store, at an address no handle had before.
\<close>

definition alloc :: "store \<Rightarrow> DLTensor \<Rightarrow> store \<times> IdArray" where
  "alloc s b = (s @ [b], Some (length s))"

text \<open>
  Modelled from the spec: \<^verbatim>\<open>NullArray\<close> and \<^verbatim>\<open>IsNullArray\<close> of \<^verbatim>\<open>array_ops.h\<close> are
  missing. The spec calls the data array optional (absent or present), so the null
  array is the handle that refers to no buffer.
\<close>

definition NullArray :: IdArray where
  "NullArray = None"

text \<open>
  Modelled from the spec: \<^verbatim>\<open>IsNullArray\<close> (missing) tells the null array from an array
  that is present.
\<close>

definition IsNullArray :: "IdArray \<Rightarrow> bool" where
  "IsNullArray a = (a = None)"

text \<open>
  Modelled from the spec: \<^verbatim>\<open>NDArray::CopyTo\<close> is missing. The spec says a cross-device
  copy produces a new, independently owned array: a fresh buffer with the same element
  type and contents at the target location. Calling it through the null handle is a
  fault.
\<close>

definition NDArray_CopyTo :: "store \<Rightarrow> IdArray \<Rightarrow> DLContext \<Rightarrow> fault + (store \<times> IdArray)" where
  "NDArray_CopyTo s a c =
     (case deref s a of None \<Rightarrow> Inl NullDeref
      | Some b \<Rightarrow> Inr (alloc s (b\<lparr>ctx := c\<rparr>)))"

text \<open>
  Modelled from the spec: \<^verbatim>\<open>NDArray::Clone\<close> is missing. The spec says the pure sort
  clones indices and data: a fresh buffer with the same element type, location and
  contents. Calling it through the null handle is a fault.
\<close>

definition NDArray_Clone :: "store \<Rightarrow> IdArray \<Rightarrow> fault + (store \<times> IdArray)" where
  "NDArray_Clone s a =
     (case deref s a of None \<Rightarrow> Inl NullDeref
      | Some b \<Rightarrow> Inr (alloc s b))"

subsection \<open>The struct and its validity check\<close>

text \<open>
  \<^verbatim>\<open>num_rows\<close> and \<^verbatim>\<open>num_cols\<close> are \<^verbatim>\<open>int64_t\<close>: 64-bit words read with \<open>sint\<close>. The field
  \<^verbatim>\<open>sorted\<close> is named \<open>sorted_flag\<close> here, as the constructor's parameter is.
\<close>

record CSRMatrix =
  num_rows :: "64 word"
  num_cols :: "64 word"
  indptr :: IdArray
  indices :: IdArray
  data :: IdArray
  sorted_flag :: bool

definition kDGLSerialize_AtenCsrMatrixMagic :: "64 word" where
  "kDGLSerialize_AtenCsrMatrixMagic = 0xDD6cd31205dff127"

text \<open>
  Modelled from the spec: the macro \<^verbatim>\<open>CHECK_NO_OVERFLOW\<close> of \<^verbatim>\<open>macro.h\<close> is missing. The
  spec's invariant 2 asks that the element type can represent the value: a signed type
  of \<open>bits\<close> bits holds values up to \<open>2 ^ (bits - 1) - 1\<close>.
\<close>

definition no_overflow :: "DLDataType \<Rightarrow> 64 word \<Rightarrow> bool" where
  "no_overflow t v = (sint v < 2 ^ (bits t - 1))"

text \<open>
  \<^verbatim>\<open>CheckValidity\<close>. The macros \<^verbatim>\<open>CHECK_SAME_DTYPE\<close> and \<^verbatim>\<open>CHECK_SAME_CONTEXT\<close> compare
  the \<^verbatim>\<open>->dtype\<close> and \<^verbatim>\<open>->ctx\<close> of two arrays; reading either through a handle without a
  buffer is the fault \<open>NullDeref\<close>. The last check compares \<^verbatim>\<open>shape[0]\<close> with the 64-bit
  sum \<^verbatim>\<open>num_rows + 1\<close>.
\<close>

definition CheckValidity :: "store \<Rightarrow> CSRMatrix \<Rightarrow> fault + unit" where
  "CheckValidity s m =
     (case deref s (indptr m) of None \<Rightarrow> Inl NullDeref
      | Some p \<Rightarrow>
     (case deref s (indices m) of None \<Rightarrow> Inl NullDeref
      | Some i \<Rightarrow>
        if dtype p \<noteq> dtype i then Inl NotSameDType
        else if ctx p \<noteq> ctx i then Inl NotSameContext
        else
        (case (if \<not> IsNullArray (data m)
               then (case deref s (data m) of None \<Rightarrow> Inl NullDeref
                     | Some d \<Rightarrow>
                       if dtype p \<noteq> dtype d then Inl NotSameDType
                       else if ctx p \<noteq> ctx d then Inl NotSameContext
                       else Inr ())
               else Inr ()) of
           Inl e \<Rightarrow> Inl e
         | Inr _ \<Rightarrow>
           if \<not> no_overflow (dtype p) (num_rows m) then Inl Overflow
           else if \<not> no_overflow (dtype p) (num_cols m) then Inl Overflow
           else if int (length (elems p)) \<noteq> sint (num_rows m + 1) then Inl CheckEqFailed
           else Inr ())))"

text \<open>The default constructor: the member initialisers, and no check.\<close>

definition CSRMatrix_default :: CSRMatrix where
  "CSRMatrix_default =
     \<lparr>num_rows = 0, num_cols = 0, indptr = None, indices = None, data = None,
      sorted_flag = False\<rparr>"

text \<open>The constructor from arrays: the fields are set, then \<^verbatim>\<open>CheckValidity\<close> runs.\<close>

definition CSRMatrix_new ::
  "store \<Rightarrow> 64 word \<Rightarrow> 64 word \<Rightarrow> IdArray \<Rightarrow> IdArray \<Rightarrow> IdArray \<Rightarrow> bool \<Rightarrow> fault + CSRMatrix" where
  "CSRMatrix_new s nrows ncols parr iarr darr sflag =
     (let m = \<lparr>num_rows = nrows, num_cols = ncols, indptr = parr, indices = iarr,
                data = darr, sorted_flag = sflag\<rparr>
      in case CheckValidity s m of Inl e \<Rightarrow> Inl e | Inr _ \<Rightarrow> Inr m)"

definition CSRHasData :: "CSRMatrix \<Rightarrow> bool" where
  "CSRHasData csr = (\<not> IsNullArray (data csr))"

subsection \<open>Serialization\<close>

text \<open>
  Modelled from the spec: the byte stream of \<^verbatim>\<open>dmlc::Stream\<close> and the encoding of an
  array are missing. By the spec's record (section 6) the stream is kept as the sequence
  of fields written: an 8-byte scalar (the magic number and the two shape fields are all
  written as such), a bool, or an array (the buffer a handle refers to, or none for the
  null array).
\<close>

datatype item = Scalar64 "64 word" | Flag bool | Array "DLTensor option"

type_synonym stream = "item list"

text \<open>Modelled from the spec: \<^verbatim>\<open>Stream::Write\<close> (missing) appends a field.\<close>

definition Write :: "stream \<Rightarrow> item \<Rightarrow> stream" where
  "Write fs x = fs @ [x]"

text \<open>
  Modelled from the spec: \<^verbatim>\<open>Stream::Read\<close> (missing) of an 8-byte scalar takes the next
  field; at the end of the stream, or on a field of another kind, it returns false.
\<close>

definition Read_scalar :: "stream \<Rightarrow> (64 word \<times> stream) option" where
  "Read_scalar fs = (case fs of Scalar64 w # r \<Rightarrow> Some (w, r) | _ \<Rightarrow> None)"

text \<open>Modelled from the spec: \<^verbatim>\<open>Stream::Read\<close> (missing) of a bool, likewise.\<close>

definition Read_flag :: "stream \<Rightarrow> (bool \<times> stream) option" where
  "Read_flag fs = (case fs of Flag b # r \<Rightarrow> Some (b, r) | _ \<Rightarrow> None)"

text \<open>
  Modelled from the spec: reading an array (\<^verbatim>\<open>NDArray::Load\<close>, missing) creates a new
  buffer for it.
\<close>

definition Read_array :: "store \<Rightarrow> stream \<Rightarrow> (store \<times> IdArray \<times> stream) option" where
  "Read_array s fs =
     (case fs of
        Array None # r \<Rightarrow> Some (s, None, r)
      | Array (Some b) # r \<Rightarrow> Some (s @ [b], Some (length s), r)
      | _ \<Rightarrow> None)"

text \<open>\<^verbatim>\<open>Save\<close>, from the header: seven writes, one after the other.\<close>

definition Save :: "store \<Rightarrow> CSRMatrix \<Rightarrow> stream \<Rightarrow> stream" where
  "Save s m fs =
     (let fs1 = Write fs (Scalar64 kDGLSerialize_AtenCsrMatrixMagic);
          fs2 = Write fs1 (Scalar64 (num_cols m));
          fs3 = Write fs2 (Scalar64 (num_rows m));
          fs4 = Write fs3 (Array (deref s (indptr m)));
          fs5 = Write fs4 (Array (deref s (indices m)));
          fs6 = Write fs5 (Array (deref s (data m)))
      in Write fs6 (Flag (sorted_flag m)))"

text \<open>
  \<^verbatim>\<open>Load\<close> overwrites the fields of the matrix it is called on, one read after the other;
  each failed \<^verbatim>\<open>CHECK\<close> is fatal and carries the message of the source. On success the
  C++ returns \<^verbatim>\<open>true\<close>; the model returns the new store, the rest of the stream and the
  matrix.
\<close>

definition Load :: "store \<Rightarrow> stream \<Rightarrow> CSRMatrix \<Rightarrow> fault + (store \<times> stream \<times> CSRMatrix)" where
  "Load s fs this =
     (case Read_scalar fs of None \<Rightarrow> Inl (CheckFailed ''Invalid Magic Number'')
      | Some (magicNum, fs1) \<Rightarrow>
     if magicNum \<noteq> kDGLSerialize_AtenCsrMatrixMagic
       then Inl (CheckFailed ''Invalid CSRMatrix Data'')
     else
     (case Read_scalar fs1 of None \<Rightarrow> Inl (CheckFailed ''Invalid num_cols'')
      | Some (nc, fs2) \<Rightarrow>
     (case Read_scalar fs2 of None \<Rightarrow> Inl (CheckFailed ''Invalid num_rows'')
      | Some (nr, fs3) \<Rightarrow>
     (case Read_array s fs3 of None \<Rightarrow> Inl (CheckFailed ''Invalid indptr'')
      | Some (s1, p, fs4) \<Rightarrow>
     (case Read_array s1 fs4 of None \<Rightarrow> Inl (CheckFailed ''Invalid indices'')
      | Some (s2, i, fs5) \<Rightarrow>
     (case Read_array s2 fs5 of None \<Rightarrow> Inl (CheckFailed ''Invalid data'')
      | Some (s3, d, fs6) \<Rightarrow>
     (case Read_flag fs6 of None \<Rightarrow> Inl (CheckFailed ''Invalid sorted'')
      | Some (b, fs7) \<Rightarrow>
        (let m = this\<lparr>num_cols := nc, num_rows := nr, indptr := p, indices := i,
                       data := d, sorted_flag := b\<rparr>
         in case CheckValidity s3 m of Inl e \<Rightarrow> Inl e
            | Inr _ \<Rightarrow> Inr (s3, fs7, m)))))))))"

subsection \<open>Copy to a device\<close>

text \<open>
  \<^verbatim>\<open>CopyTo\<close> compares the target with \<^verbatim>\<open>indptr->ctx\<close> and returns \<^verbatim>\<open>*this\<close> when they are
  equal. Otherwise the three arrays are copied (the data array only when it is not
  null) and the constructor validates the new matrix. C++ leaves the order of the three
  copies open; they are taken left to right.
\<close>

definition CopyTo :: "store \<Rightarrow> CSRMatrix \<Rightarrow> DLContext \<Rightarrow> fault + (store \<times> CSRMatrix)" where
  "CopyTo s this c =
     (case deref s (indptr this) of None \<Rightarrow> Inl NullDeref
      | Some p \<Rightarrow>
        if c = ctx p then Inr (s, this)
        else
        (case NDArray_CopyTo s (indptr this) c of Inl e \<Rightarrow> Inl e
         | Inr (s1, p') \<Rightarrow>
        (case NDArray_CopyTo s1 (indices this) c of Inl e \<Rightarrow> Inl e
         | Inr (s2, i') \<Rightarrow>
        (case (if IsNullArray (data this) then Inr (s2, data this)
               else NDArray_CopyTo s2 (data this) c) of Inl e \<Rightarrow> Inl e
         | Inr (s3, d') \<Rightarrow>
        (case CSRMatrix_new s3 (num_rows this) (num_cols this) p' i' d' (sorted_flag this) of
           Inl e \<Rightarrow> Inl e
         | Inr m \<Rightarrow> Inr (s3, m))))))"

section \<open>Routines declared in the header\<close>

text \<open>
  The header declares the CSR routines and defines \<^verbatim>\<open>CSRGetAllData\<close> and \<^verbatim>\<open>CSRSort\<close>
  inline; the bodies of the others are in files outside it. Each routine whose body is
  missing is modelled from the spec, on the contents of the arrays, and wrapped in a
  function on the store with the declared arguments.
\<close>

subsection \<open>Rows of a matrix\<close>

text \<open>
  Modelled from the spec: the part of a sequence from position \<open>lo\<close> up to, not
  including, position \<open>hi\<close>.
\<close>

definition slice :: "'a list \<Rightarrow> nat \<Rightarrow> nat \<Rightarrow> 'a list" where
  "slice xs lo hi = take (hi - lo) (drop lo xs)"

text \<open>
  Modelled from the spec: the rows of a matrix (section 3). Row \<open>r\<close> holds the entries at
  the positions from \<open>indptr[r]\<close> up to, not including, \<open>indptr[r+1]\<close>: \<open>rows_of\<close> walks
  the consecutive pairs of indptr and cuts the rows out of a sequence aligned with the
  indices array.
\<close>

fun rows_of :: "int list \<Rightarrow> 'a list \<Rightarrow> 'a list list" where
  "rows_of (lo # hi # ip) xs = slice xs (nat lo) (nat hi) # rows_of (hi # ip) xs"
| "rows_of ip xs = []"

text \<open>
  Modelled from the spec: the data model of a matrix (section 3). The shape is not
  negative, indptr has length \<open>num_rows + 1\<close>, starts at 0 and is non-decreasing, and
  \<open>indptr[num_rows]\<close> is the length of indices and of data. The spec says that this is
  relied upon by every algorithm and never checked by them: where it fails the spec gives
  a routine no meaning, and the modelled routines return the fault \<open>InvalidMatrix\<close>.
\<close>

definition csr_invariant :: "int \<Rightarrow> int list \<Rightarrow> int list \<Rightarrow> int list \<Rightarrow> bool" where
  "csr_invariant nr ip idx dat =
     (0 \<le> nr \<and> int (length ip) = nr + 1 \<and> hd ip = 0 \<and> sorted ip \<and>
      last ip = int (length idx) \<and> length dat = length idx)"

text \<open>
  Modelled from the spec: the data ids of a matrix (section 3, and the comment on the
  field \<^verbatim>\<open>data\<close>) are the contents of the data array, or, when it is null, the identity
  sequence \<open>0..nnz-1\<close>.
\<close>

definition data_ids :: "store \<Rightarrow> CSRMatrix \<Rightarrow> nat \<Rightarrow> int list option" where
  "data_ids s m nnz =
     (if IsNullArray (data m) then Some (map int [0..<nnz]) else array_elems s (data m))"

text \<open>
  Modelled from the spec: what a modelled routine reads of a matrix, namely indptr,
  indices and the data ids, provided that the data model holds.
\<close>

definition read_csr :: "store \<Rightarrow> CSRMatrix \<Rightarrow> fault + (int list \<times> int list \<times> int list)" where
  "read_csr s m =
     (case array_elems s (indptr m) of None \<Rightarrow> Inl NullDeref
      | Some ip \<Rightarrow>
     (case array_elems s (indices m) of None \<Rightarrow> Inl NullDeref
      | Some idx \<Rightarrow>
     (case data_ids s m (length idx) of None \<Rightarrow> Inl NullDeref
      | Some dat \<Rightarrow>
        if csr_invariant (sint (num_rows m)) ip idx dat then Inr (ip, idx, dat)
        else Inl InvalidMatrix)))"

subsection \<open>Sorting\<close>

text \<open>
  Modelled from the spec: the in-place sort (section 4.6) is a stable ascending
  reordering of each row's column indices, the paired data entries permuted identically.
\<close>

definition sort_rows :: "int list \<Rightarrow> (int \<times> 'b) list \<Rightarrow> (int \<times> 'b) list" where
  "sort_rows ip ps = concat (map (sort_key fst) (rows_of ip ps))"

text \<open>
  Modelled from the spec: writing the elements of a buffer through a handle (the element
  access of \<^verbatim>\<open>NDArray\<close> is missing). Every handle to that buffer sees the new contents.
\<close>

definition set_elems :: "store \<Rightarrow> IdArray \<Rightarrow> int list \<Rightarrow> store" where
  "set_elems s a xs =
     (case a of None \<Rightarrow> s
      | Some k \<Rightarrow> if k < length s then s[k := (s ! k)\<lparr>elems := xs\<rparr>] else s)"

text \<open>
  Modelled from the spec: \<^verbatim>\<open>CSRSort_\<close> is declared only; it is named \<open>CSRSort_inplace\<close>
  here. The buffers of indices and of data (if present) are overwritten where they are
  with the row-wise sorted contents; indptr is not modified. Neither the spec nor the
  header's comment says whether the sort also sets the sorted flag: \<open>set_flag\<close> chooses,
  and the results below hold for both choices.
\<close>

definition CSRSort_inplace :: "bool \<Rightarrow> store \<Rightarrow> CSRMatrix \<Rightarrow> fault + (store \<times> CSRMatrix)" where
  "CSRSort_inplace set_flag s csr =
     (case read_csr s csr of Inl e \<Rightarrow> Inl e
      | Inr (ip, idx, dat) \<Rightarrow>
        (let ps = sort_rows ip (zip idx dat);
             s1 = set_elems s (indices csr) (map fst ps);
             s2 = (if CSRHasData csr then set_elems s1 (data csr) (map snd ps) else s1)
         in Inr (s2, csr\<lparr>sorted_flag := (set_flag \<or> sorted_flag csr)\<rparr>)))"

text \<open>
  \<^verbatim>\<open>CSRSort\<close>, from the header: a matrix whose flag is set is returned as it is; otherwise
  indices and data (when present) are cloned, a new matrix is constructed on the clones
  and the old indptr, and the in-place sort runs on it.
\<close>

definition CSRSort :: "bool \<Rightarrow> store \<Rightarrow> CSRMatrix \<Rightarrow> fault + (store \<times> CSRMatrix)" where
  "CSRSort set_flag s csr =
     (if sorted_flag csr then Inr (s, csr)
      else
      (case NDArray_Clone s (indices csr) of Inl e \<Rightarrow> Inl e
       | Inr (s1, i') \<Rightarrow>
      (case (if CSRHasData csr then NDArray_Clone s1 (data csr) else Inr (s1, data csr)) of
         Inl e \<Rightarrow> Inl e
       | Inr (s2, d') \<Rightarrow>
      (case CSRMatrix_new s2 (num_rows csr) (num_cols csr) (indptr csr) i' d' (sorted_flag csr) of
         Inl e \<Rightarrow> Inl e
       | Inr ret \<Rightarrow> CSRSort_inplace set_flag s2 ret))))"

text \<open>What a matrix holds: its shape, the contents of its three arrays, and its flag.\<close>

definition csr_view ::
  "store \<Rightarrow> CSRMatrix \<Rightarrow> 64 word \<times> 64 word \<times> int list option \<times> int list option \<times> int list option \<times> bool" where
  "csr_view s m =
     (num_rows m, num_cols m, array_elems s (indptr m), array_elems s (indices m),
      array_elems s (data m), sorted_flag m)"


subsection \<open>Lookup by row and column\<close>

text \<open>
  Modelled from the spec: the entries of row \<open>r\<close> as pairs of a column and a data id. A
  row outside the matrix has none: by the spec a pair absent from the matrix is a pair
  without a match, for all matrices and query pairs.
\<close>

definition row_entries :: "int list \<Rightarrow> int list \<Rightarrow> int list \<Rightarrow> int \<Rightarrow> (int \<times> int) list" where
  "row_entries ip idx dat r =
     (if 0 \<le> r \<and> nat r < length ip - 1 then rows_of ip (zip idx dat) ! nat r else [])"

text \<open>
  Modelled from the spec: the matches of a pair \<open>(r, c)\<close> are the data ids of the entries
  of row \<open>r\<close> at column \<open>c\<close>, in the order of their positions.
\<close>

definition matches :: "int list \<Rightarrow> int list \<Rightarrow> int list \<Rightarrow> int \<Rightarrow> int \<Rightarrow> int list" where
  "matches ip idx dat r c = map snd (filter (\<lambda>e. fst e = c) (row_entries ip idx dat r))"

text \<open>
  Modelled from the spec: broadcasting of a batched query (section 4.2). A row or column
  sequence of length 1 is repeated against the other sequence; sequences of equal length
  are paired position by position. The spec gives no meaning to other lengths: the
  routines return the fault \<open>ShapeMismatch\<close> there.
\<close>

definition broadcast :: "int list \<Rightarrow> int list \<Rightarrow> (int \<times> int) list option" where
  "broadcast rows cols =
     (if length rows = length cols then Some (zip rows cols)
      else if length rows = 1 then Some (map (\<lambda>c. (hd rows, c)) cols)
      else if length cols = 1 then Some (map (\<lambda>r. (r, hd cols)) rows)
      else None)"

text \<open>
  Modelled from the spec: \<^verbatim>\<open>CSRGetDataAndIndices\<close> is declared only. It returns three
  parallel sequences (rows, columns, data ids) with one element per matching entry of
  each queried pair; a pair without a match contributes nothing.
\<close>

definition get_data_and_indices ::
  "int list \<Rightarrow> int list \<Rightarrow> int list \<Rightarrow> (int \<times> int) list \<Rightarrow> (int \<times> int \<times> int) list" where
  "get_data_and_indices ip idx dat qs =
     concat (map (\<lambda>(r, c). map (\<lambda>d. (r, c, d)) (matches ip idx dat r c)) qs)"

text \<open>
  Modelled from the spec: \<^verbatim>\<open>CSRGetData\<close> is declared only. It returns one result per
  queried pair: \<open>-1\<close> when the pair has no match, and otherwise one matching data id.
  The spec leaves open which one; the model takes the first by position.
\<close>

definition get_data :: "int list \<Rightarrow> int list \<Rightarrow> int list \<Rightarrow> (int \<times> int) list \<Rightarrow> int list" where
  "get_data ip idx dat qs =
     map (\<lambda>(r, c). case matches ip idx dat r c of [] \<Rightarrow> - 1 | d # _ \<Rightarrow> d) qs"

text \<open>
  Modelled from the spec: \<^verbatim>\<open>CSRGetDataAndIndices\<close> with its declared arguments. It reads
  the matrix and the two query arrays and allocates the three result arrays with the
  element type and location of indptr.
\<close>

definition CSRGetDataAndIndices ::
  "store \<Rightarrow> CSRMatrix \<Rightarrow> IdArray \<Rightarrow> IdArray \<Rightarrow> fault + (store \<times> IdArray list)" where
  "CSRGetDataAndIndices s mat rows cols =
     (case deref s (indptr mat) of None \<Rightarrow> Inl NullDeref
      | Some p \<Rightarrow>
     (case read_csr s mat of Inl e \<Rightarrow> Inl e
      | Inr (ip, idx, dat) \<Rightarrow>
     (case array_elems s rows of None \<Rightarrow> Inl NullDeref
      | Some rs \<Rightarrow>
     (case array_elems s cols of None \<Rightarrow> Inl NullDeref
      | Some cs \<Rightarrow>
     (case broadcast rs cs of None \<Rightarrow> Inl ShapeMismatch
      | Some qs \<Rightarrow>
        (let out = get_data_and_indices ip idx dat qs;
             (s1, a) = alloc s (p\<lparr>elems := map fst out\<rparr>);
             (s2, b) = alloc s1 (p\<lparr>elems := map (fst \<circ> snd) out\<rparr>);
             (s3, c) = alloc s2 (p\<lparr>elems := map (snd \<circ> snd) out\<rparr>)
         in Inr (s3, [a, b, c])))))))"

text \<open>
  Modelled from the spec: \<^verbatim>\<open>CSRGetData\<close> with its declared arguments. It reads the matrix
  and the two query arrays and allocates the result array with the element type and
  location of indptr.
\<close>

definition CSRGetData ::
  "store \<Rightarrow> CSRMatrix \<Rightarrow> IdArray \<Rightarrow> IdArray \<Rightarrow> fault + (store \<times> IdArray)" where
  "CSRGetData s mat rows cols =
     (case deref s (indptr mat) of None \<Rightarrow> Inl NullDeref
      | Some p \<Rightarrow>
     (case read_csr s mat of Inl e \<Rightarrow> Inl e
      | Inr (ip, idx, dat) \<Rightarrow>
     (case array_elems s rows of None \<Rightarrow> Inl NullDeref
      | Some rs \<Rightarrow>
     (case array_elems s cols of None \<Rightarrow> Inl NullDeref
      | Some cs \<Rightarrow>
     (case broadcast rs cs of None \<Rightarrow> Inl ShapeMismatch
      | Some qs \<Rightarrow> Inr (alloc s (p\<lparr>elems := get_data ip idx dat qs\<rparr>)))))))"

text \<open>
  Modelled from the spec: \<^verbatim>\<open>VecToIdArray\<close> of \<^verbatim>\<open>array_ops.h\<close> is missing and the spec does
  not describe it. By its name and arguments it makes an id array of the given bit width
  at the given location from a vector; the elements are kept as they are.
\<close>

definition VecToIdArray :: "store \<Rightarrow> 64 word list \<Rightarrow> nat \<Rightarrow> DLContext \<Rightarrow> store \<times> IdArray" where
  "VecToIdArray s vec nbits c =
     alloc s \<lparr>dtype = \<lparr>code = 0, bits = nbits, lanes = 1\<rparr>, ctx = c, elems = map sint vec\<rparr>"

text \<open>
  \<^verbatim>\<open>CSRGetAllData\<close>, from the header: the row and the column become two arrays of one
  element, with the bit width and the location of indptr, and the result is the third
  array \<^verbatim>\<open>CSRGetDataAndIndices\<close> returns for them.
\<close>

definition CSRGetAllData ::
  "store \<Rightarrow> CSRMatrix \<Rightarrow> 64 word \<Rightarrow> 64 word \<Rightarrow> fault + (store \<times> IdArray)" where
  "CSRGetAllData s mat row col =
     (case deref s (indptr mat) of None \<Rightarrow> Inl NullDeref
      | Some p \<Rightarrow>
        (let nbits = bits (dtype p);
             c = ctx p;
             (s1, rows) = VecToIdArray s [row] nbits c;
             (s2, cols) = VecToIdArray s1 [col] nbits c
         in case CSRGetDataAndIndices s2 mat rows cols of Inl e \<Rightarrow> Inl e
            | Inr (s3, rst) \<Rightarrow> Inr (s3, rst ! 2)))"

subsection \<open>Row-wise sampling\<close>

text \<open>
  Modelled from the spec: the struct \<^verbatim>\<open>COOMatrix\<close> is only declared in the header. The
  result of sampling is a COO-like triple of rows, columns and data ids with the shape of
  the matrix; the example on the declaration of \<^verbatim>\<open>CSRRowWiseSampling\<close> shows these
  fields.
\<close>

record COOMatrix =
  coo_num_rows :: "64 word"
  coo_num_cols :: "64 word"
  coo_rows :: IdArray
  coo_cols :: IdArray
  coo_data :: IdArray

text \<open>
  Modelled from the spec: the positions of the entries of row \<open>r\<close>, from \<open>indptr[r]\<close> up
  to, not including, \<open>indptr[r+1]\<close>.
\<close>

definition positions :: "int list \<Rightarrow> int \<Rightarrow> nat list" where
  "positions ip r = [nat (ip ! nat r) ..< nat (ip ! Suc (nat r))]"

text \<open>
  Modelled from the spec: drawing \<open>n\<close> entries of a row without replacement. The random
  source \<open>g\<close> gives, from the number of the draw and the candidates still available, a
  natural number, which is reduced modulo the number of candidates to choose one; the
  chosen candidate is removed before the next draw.
\<close>

fun pick_without :: "(nat \<Rightarrow> nat list \<Rightarrow> nat) \<Rightarrow> nat \<Rightarrow> nat \<Rightarrow> nat list \<Rightarrow> nat list" where
  "pick_without g 0 t cand = []"
| "pick_without g (Suc n) t cand =
     (if cand = [] then []
      else (let i = g t cand mod length cand
            in cand ! i # pick_without g n (Suc t) (take i cand @ drop (Suc i) cand)))"

text \<open>
  Modelled from the spec: drawing \<open>n\<close> entries of a row with replacement. Nothing can be
  drawn from a row without entries.
\<close>

definition pick_with :: "(nat \<Rightarrow> nat list \<Rightarrow> nat) \<Rightarrow> nat \<Rightarrow> nat list \<Rightarrow> nat list" where
  "pick_with g n cand =
     (if cand = [] then [] else map (\<lambda>t. cand ! (g t cand mod length cand)) [0..<n])"

text \<open>
  Modelled from the spec: sampling one row (section 4.9, and the comment on the
  declaration). \<open>k\<close> entries are drawn, with or without replacement; without
  replacement, a row with no more entries than requested yields all of them.
\<close>

definition sample_row :: "(nat \<Rightarrow> nat list \<Rightarrow> nat) \<Rightarrow> nat \<Rightarrow> bool \<Rightarrow> nat list \<Rightarrow> nat list" where
  "sample_row g k replace cand =
     (if \<not> replace \<and> length cand \<le> k then cand
      else if replace then pick_with g k cand
      else pick_without g k 0 cand)"

text \<open>
  Modelled from the spec: every requested row contributes its own group of picked
  positions, drawn with its own random source, \<open>rng\<close> at the number of the request and
  the weight array: the rows are sampled independently. The weights are of any type
  \<open>'w\<close> and reach the result only through \<open>rng\<close>.
\<close>

definition sample_groups ::
  "(nat \<Rightarrow> 'w list \<Rightarrow> nat \<Rightarrow> nat list \<Rightarrow> nat) \<Rightarrow> int list \<Rightarrow> nat \<Rightarrow> 'w list \<Rightarrow> bool \<Rightarrow> int list
     \<Rightarrow> nat list list" where
  "sample_groups rng ip k prob replace rs =
     map (\<lambda>i. sample_row (rng i prob) k replace (positions ip (rs ! i))) [0..<length rs]"

text \<open>
  Modelled from the spec: \<^verbatim>\<open>CSRRowWiseSampling\<close> is declared only; the random source is
  an argument of the model. The result lists, per pick and in the order of the
  requests, the requesting row, the column and the data id, in three new arrays with the
  element type and location of indptr. The spec gives no meaning to a requested row
  outside the matrix or to a negative \<open>num_samples\<close>: the fault \<open>InvalidArgument\<close> is
  returned there.
\<close>

definition CSRRowWiseSampling ::
  "(nat \<Rightarrow> 'w list \<Rightarrow> nat \<Rightarrow> nat list \<Rightarrow> nat) \<Rightarrow> store \<Rightarrow> CSRMatrix \<Rightarrow> IdArray \<Rightarrow> 64 word
     \<Rightarrow> 'w list \<Rightarrow> bool \<Rightarrow> fault + (store \<times> COOMatrix)" where
  "CSRRowWiseSampling rng s mat rows num_samples prob replace =
     (case deref s (indptr mat) of None \<Rightarrow> Inl NullDeref
      | Some p \<Rightarrow>
     (case read_csr s mat of Inl e \<Rightarrow> Inl e
      | Inr (ip, idx, dat) \<Rightarrow>
     (case array_elems s rows of None \<Rightarrow> Inl NullDeref
      | Some rs \<Rightarrow>
        if sint num_samples < 0 \<or> \<not> list_all (\<lambda>r. 0 \<le> r \<and> r < sint (num_rows mat)) rs
        then Inl InvalidArgument
        else
        (let gs = sample_groups rng ip (nat (sint num_samples)) prob replace rs;
             (s1, a) = alloc s (p\<lparr>elems :=
                 concat (map (\<lambda>i. replicate (length (gs ! i)) (rs ! i)) [0..<length rs])\<rparr>);
             (s2, b) = alloc s1 (p\<lparr>elems := map (\<lambda>j. idx ! j) (concat gs)\<rparr>);
             (s3, c) = alloc s2 (p\<lparr>elems := map (\<lambda>j. dat ! j) (concat gs)\<rparr>)
         in Inr (s3, \<lparr>coo_num_rows = num_rows mat, coo_num_cols = num_cols mat,
                      coo_rows = a, coo_cols = b, coo_data = c\<rparr>)))))"

subsection \<open>Transposition\<close>

text \<open>
  Modelled from the spec: the entries of a list of rows as triples of row, column and
  data id, row by row.
\<close>

definition entries_of_rows :: "(int \<times> int) list list \<Rightarrow> (int \<times> int \<times> int) list" where
  "entries_of_rows rows =
     concat (map (\<lambda>(r, row). map (\<lambda>(c, d). (int r, c, d)) row) (enumerate 0 rows))"

text \<open>Modelled from the spec: the entries of a matrix, from its three arrays.\<close>

definition csr_entries :: "int list \<Rightarrow> int list \<Rightarrow> int list \<Rightarrow> (int \<times> int \<times> int) list" where
  "csr_entries ip idx dat = entries_of_rows (rows_of ip (zip idx dat))"

text \<open>
  Modelled from the spec: the bucket of the old column \<open>c\<close> holds the entries at that
  column, in their original order, each as the pair of its old row and its data id.
\<close>

definition bucket :: "(int \<times> int \<times> int) list \<Rightarrow> nat \<Rightarrow> (int \<times> int) list" where
  "bucket es c = map (\<lambda>(r, c', d). (r, d)) (filter (\<lambda>(r, c', d). c' = int c) es)"

text \<open>
  Modelled from the spec: scattering each entry into the bucket of its old column gives
  one bucket per old column; bucket \<open>c\<close> becomes row \<open>c\<close> of the result.
\<close>

definition transpose_buckets :: "nat \<Rightarrow> (int \<times> int \<times> int) list \<Rightarrow> (int \<times> int) list list" where
  "transpose_buckets ncols es = map (bucket es) [0..<ncols]"

text \<open>
  Modelled from the spec: the prefix sums of a histogram, starting from \<open>a\<close>; those of
  the bucket sizes are the new indptr.
\<close>

fun prefix_sums :: "int \<Rightarrow> nat list \<Rightarrow> int list" where
  "prefix_sums a [] = [a]"
| "prefix_sums a (d # ds) = a # prefix_sums (a + int d) ds"

text \<open>
  Modelled from the spec: \<^verbatim>\<open>CSRTranspose\<close> is declared only (section 4.4). The rows and
  columns swap roles and the shape becomes \<open>(num_cols, num_rows)\<close>. The new indptr is the
  prefix sum of the histogram of the old columns, and each entry is scattered into the
  bucket of its old column. The data ids go with their entries, so the result has a data
  array also when the argument has none. The result is built with the constructor, its
  sorted flag left at the default. The data model asks every column to be in
  \<open>[0, num_cols)\<close>; a matrix that breaks it is refused as \<open>InvalidMatrix\<close>.
\<close>

definition CSRTranspose :: "store \<Rightarrow> CSRMatrix \<Rightarrow> fault + (store \<times> CSRMatrix)" where
  "CSRTranspose s csr =
     (case deref s (indptr csr) of None \<Rightarrow> Inl NullDeref
      | Some p \<Rightarrow>
     (case read_csr s csr of Inl e \<Rightarrow> Inl e
      | Inr (ip, idx, dat) \<Rightarrow>
        if sint (num_cols csr) < 0 \<or> \<not> list_all (\<lambda>c. 0 \<le> c \<and> c < sint (num_cols csr)) idx
        then Inl InvalidMatrix
        else
        (let bs = transpose_buckets (nat (sint (num_cols csr))) (csr_entries ip idx dat);
             (s1, a) = alloc s (p\<lparr>elems := prefix_sums 0 (map length bs)\<rparr>);
             (s2, b) = alloc s1 (p\<lparr>elems := map fst (concat bs)\<rparr>);
             (s3, c) = alloc s2 (p\<lparr>elems := map snd (concat bs)\<rparr>)
         in case CSRMatrix_new s3 (num_cols csr) (num_rows csr) a b c False of
              Inl e \<Rightarrow> Inl e
            | Inr m \<Rightarrow> Inr (s3, m))))"

subsection \<open>Auxiliary functions for the proofs\<close>

text \<open>
  Used in the proofs only: the rows of a matrix that satisfies the data model are
  consecutive chunks (\<open>chop\<close>) whose lengths are the differences of neighbouring indptr
  entries (\<open>degs\<close>).
\<close>

fun chop :: "nat list \<Rightarrow> 'a list \<Rightarrow> 'a list list" where
  "chop [] xs = []"
| "chop (d # ds) xs = take d xs # chop ds (drop d xs)"

fun degs :: "int list \<Rightarrow> nat list" where
  "degs (lo # hi # ip) = (nat hi - nat lo) # degs (hi # ip)"
| "degs ip = []"

subsection \<open>Concrete stores and matrices\<close>

text \<open>The 64-bit integer element type and the CPU, device 0.\<close>

definition int64_dtype :: DLDataType where
  "int64_dtype = \<lparr>code = 0, bits = 64, lanes = 1\<rparr>"

definition cpu0 :: DLContext where
  "cpu0 = \<lparr>device_type = 1, device_id = 0\<rparr>"

definition gpu0 :: DLContext where
  "gpu0 = \<lparr>device_type = 2, device_id = 0\<rparr>"

definition id_tensor :: "int list \<Rightarrow> DLTensor" where
  "id_tensor xs = \<lparr>dtype = int64_dtype, ctx = cpu0, elems = xs\<rparr>"

text \<open>A store whose first buffer, used as indptr, is \<open>[5, 3]\<close>, and whose second is empty.\<close>

definition skewed_store :: store where
  "skewed_store = [id_tensor [5, 3], id_tensor []]"

definition skewed_csr :: CSRMatrix where
  "skewed_csr =
     \<lparr>num_rows = 1, num_cols = 1, indptr = Some 0, indices = Some 1, data = None,
      sorted_flag = False\<rparr>"

text \<open>
  The matrix of the header's examples: 4 rows, 4 columns, indptr \<open>[0, 2, 3, 3, 5]\<close>,
  indices \<open>[1, 0, 2, 3, 1]\<close>, and the data array \<open>[2, 3, 0, 1, 4]\<close> at address 2.
\<close>

definition example_store :: store where
  "example_store = [id_tensor [0, 2, 3, 3, 5], id_tensor [1, 0, 2, 3, 1], id_tensor [2, 3, 0, 1, 4]]"

definition example_csr :: CSRMatrix where
  "example_csr =
     \<lparr>num_rows = 4, num_cols = 4, indptr = Some 0, indices = Some 1, data = Some 2,
      sorted_flag = False\<rparr>"

definition sorted_store :: store where
  "sorted_store = example_store @ [id_tensor [0, 1, 2, 1, 3], id_tensor [3, 2, 0, 4, 1]]"

definition sorted_csr :: CSRMatrix where
  "sorted_csr =
     \<lparr>num_rows = 4, num_cols = 4, indptr = Some 0, indices = Some 3, data = Some 4,
      sorted_flag = False\<rparr>"


text \<open>
  The example store extended with query arrays: the row 3 and the column 1, and the
  batched query of rows \<open>[0, 3, 3, 0]\<close> against columns \<open>[0, 1, 0, 0]\<close>.
\<close>

definition lookup_store :: store where
  "lookup_store = example_store @ [id_tensor [3], id_tensor [1], id_tensor [0, 3, 3, 0], id_tensor [0, 1, 0, 0]]"


text \<open>
  The example matrix declared with 5 columns, and what its transposition yields.
\<close>

definition wide_csr :: CSRMatrix where
  "wide_csr =
     \<lparr>num_rows = 4, num_cols = 5, indptr = Some 0, indices = Some 1, data = Some 2,
      sorted_flag = False\<rparr>"

definition transposed_store :: store where
  "transposed_store =
     example_store @ [id_tensor [0, 1, 3, 4, 5, 5], id_tensor [0, 0, 3, 1, 3], id_tensor [3, 2, 4, 0, 1]]"

definition transposed_csr :: CSRMatrix where
  "transposed_csr =
     \<lparr>num_rows = 5, num_cols = 4, indptr = Some 3, indices = Some 4, data = Some 5,
      sorted_flag = False\<rparr>"


section \<open>Properties of the matrix core\<close>

text \<open>
  C1. \<^verbatim>\<open>Save\<close> appends to the stream exactly seven values in this order: the magic
  constant, \<^verbatim>\<open>num_cols\<close>, \<^verbatim>\<open>num_rows\<close>, \<^verbatim>\<open>indptr\<close>, \<^verbatim>\<open>indices\<close>, \<^verbatim>\<open>data\<close> and the sorted
  flag; the column count comes before the row count.
\<close>

theorem Save_field_order:
  "Save s m fs =
     fs @ [Scalar64 kDGLSerialize_AtenCsrMatrixMagic,
           Scalar64 (num_cols m),
           Scalar64 (num_rows m),
           Array (deref s (indptr m)),
           Array (deref s (indices m)),
           Array (deref s (data m)),
           Flag (sorted_flag m)]"
  by (simp add: Save_def Write_def)

lemma sint_succ_iff:
  fixes w :: "64 word"
  shows "(int n = sint (w + 1)) = (int n = sint w + 1 \<and> n < 2 ^ 63)"
proof -
  have lo: "- (2 ^ 63) \<le> sint w" and hi: "sint w < 2 ^ 63"
    using sint_ge [of w] sint_lt [of w] by simp_all
  show ?thesis
  proof (cases "sint w = 2 ^ 63 - 1")
    case True
    have "word_of_int (sint w) = w" by simp
    with True have "w = word_of_int (2 ^ 63 - 1)"
      by simp
    then have "sint (w + 1) = - (2 ^ 63)"
      by simp
    with True show ?thesis by auto
  next
    case False
    with hi have "sint w + 1 < 2 ^ 63" by simp
    with lo have "sint (w + 1) = sint w + 1"
      by (simp add: sint_word_ariths signed_take_bit_int_eq_self)
    with hi False show ?thesis by auto
  qed
qed

lemma CheckValidity_Inr_iff:
  "(CheckValidity s m = Inr ()) =
     (\<exists>p i. deref s (indptr m) = Some p \<and> deref s (indices m) = Some i \<and>
        dtype p = dtype i \<and> ctx p = ctx i \<and>
        (data m \<noteq> None \<longrightarrow>
           (\<exists>d. deref s (data m) = Some d \<and> dtype p = dtype d \<and> ctx p = ctx d)) \<and>
        no_overflow (dtype p) (num_rows m) \<and> no_overflow (dtype p) (num_cols m) \<and>
        int (length (elems p)) = sint (num_rows m) + 1 \<and> length (elems p) < 2 ^ 63)"
  unfolding CheckValidity_def IsNullArray_def
  by (auto simp: sint_succ_iff split: option.splits sum.splits if_splits)

lemma CSRMatrix_new_Inr_iff:
  "(CSRMatrix_new s nrows ncols parr iarr darr sflag = Inr m) =
     (m = \<lparr>num_rows = nrows, num_cols = ncols, indptr = parr, indices = iarr,
            data = darr, sorted_flag = sflag\<rparr> \<and> CheckValidity s m = Inr ())"
  by (auto simp: CSRMatrix_new_def Let_def split: sum.splits)

lemma Load_Inr_valid:
  "Load s fs this = Inr (s', fs', m) \<Longrightarrow> CheckValidity s' m = Inr ()"
  unfolding Load_def
  by (auto simp: Let_def split: option.splits sum.splits if_splits prod.splits)

text \<open>
  C2, as stated, fails: the constructor accepts a matrix with one row whose indptr is
  \<open>[5, 3]\<close> and whose indices array is empty. Its indptr does not start at 0, decreases,
  and its last entry is not the length of indices.
\<close>

theorem unchecked_indptr_counterexample:
  "CSRMatrix_new skewed_store 1 1 (Some 0) (Some 1) NullArray False = Inr skewed_csr \<and>
   array_elems skewed_store (indptr skewed_csr) = Some [5, 3] \<and>
   array_elems skewed_store (indices skewed_csr) = Some [] \<and>
   [5, 3 :: int] ! 0 \<noteq> 0 \<and>
   \<not> sorted [5, 3 :: int] \<and>
   [5, 3 :: int] ! unat (num_rows skewed_csr) \<noteq> int (length ([] :: int list))"
  by (simp add: CSRMatrix_new_def CheckValidity_def skewed_store_def skewed_csr_def
      deref_def array_elems_def id_tensor_def NullArray_def IsNullArray_def
      no_overflow_def int64_dtype_def)

text \<open>
  C2, amended. Construction succeeds exactly when \<^verbatim>\<open>CheckValidity\<close> passes on the new
  matrix, a successful \<^verbatim>\<open>Load\<close> has passed it too, and it passes exactly when indptr and
  indices (and data, when present) have buffers of one element type at one location,
  the element type can represent \<^verbatim>\<open>num_rows\<close> and \<^verbatim>\<open>num_cols\<close>, and indptr has length
  \<^verbatim>\<open>num_rows + 1\<close>. Nothing is checked about the values stored in indptr or about the
  lengths of indices and data.
\<close>

theorem constructed_matrix_checked:
  "(CSRMatrix_new s nrows ncols parr iarr darr sflag = Inr m \<longleftrightarrow>
      m = \<lparr>num_rows = nrows, num_cols = ncols, indptr = parr, indices = iarr,
            data = darr, sorted_flag = sflag\<rparr> \<and> CheckValidity s m = Inr ()) \<and>
   (Load s0 fs this = Inr (s', fs', m') \<longrightarrow> CheckValidity s' m' = Inr ()) \<and>
   (CheckValidity s m = Inr () \<longleftrightarrow>
      (\<exists>p i. deref s (indptr m) = Some p \<and> deref s (indices m) = Some i \<and>
         dtype p = dtype i \<and> ctx p = ctx i \<and>
         (data m \<noteq> None \<longrightarrow>
            (\<exists>d. deref s (data m) = Some d \<and> dtype p = dtype d \<and> ctx p = ctx d)) \<and>
         no_overflow (dtype p) (num_rows m) \<and> no_overflow (dtype p) (num_cols m) \<and>
         int (length (elems p)) = sint (num_rows m) + 1 \<and> length (elems p) < 2 ^ 63))"
  using CSRMatrix_new_Inr_iff [of s nrows ncols parr iarr darr sflag m]
    Load_Inr_valid [of s0 fs this s' fs' m'] CheckValidity_Inr_iff [of s m]
  by blast

lemma example_csr_valid: "CheckValidity example_store example_csr = Inr ()"
  by (simp add: CheckValidity_def example_store_def example_csr_def deref_def
      id_tensor_def IsNullArray_def no_overflow_def int64_dtype_def)

lemma Load_fields_record:
  "this\<lparr>num_cols := nc, num_rows := nr, indptr := p, indices := i, data := d,
      sorted_flag := b\<rparr> =
   \<lparr>num_rows = nr, num_cols = nc, indptr = p, indices = i, data = d, sorted_flag = b\<rparr>"
  by simp

lemma example_Load_Save:
  "Load [] (Save example_store example_csr []) CSRMatrix_default =
     Inr (example_store, [], example_csr)"
proof -
  have sv: "Save example_store example_csr [] =
      [Scalar64 kDGLSerialize_AtenCsrMatrixMagic, Scalar64 4, Scalar64 4,
       Array (Some (id_tensor [0, 2, 3, 3, 5])), Array (Some (id_tensor [1, 0, 2, 3, 1])),
       Array (Some (id_tensor [2, 3, 0, 1, 4])), Flag False]"
    by (simp add: Save_def Write_def example_store_def example_csr_def deref_def)
  have m: "\<lparr>num_rows = 4, num_cols = 4, indptr = Some 0, indices = Some (Suc 0),
      data = Some (Suc (Suc 0)), sorted_flag = False\<rparr> = example_csr"
    by (simp add: example_csr_def numeral_2_eq_2)
  have st: "[id_tensor [0, 2, 3, 3, 5], id_tensor [1, 0, 2, 3, 1],
      id_tensor [2, 3, 0, 1, 4]] = example_store"
    by (simp add: example_store_def)
  show ?thesis
    by (simp add: sv Load_def Read_scalar_def Read_array_def Read_flag_def
        Load_fields_record m st example_csr_valid)
qed

theorem constructed_matrix_checked_witness:
  "CSRMatrix_new example_store 4 4 (Some 0) (Some 1) (Some 2) False = Inr example_csr \<and>
   Load [] (Save example_store example_csr []) CSRMatrix_default =
     Inr (example_store, [], example_csr) \<and>
   CheckValidity example_store example_csr = Inr () \<and>
   (\<exists>p. deref example_store (indptr example_csr) = Some p \<and>
      int (length (elems p)) = sint (num_rows example_csr) + 1)"
proof -
  note t = constructed_matrix_checked [of example_store 4 4 "Some 0" "Some 1" "Some 2" False
      example_csr "[]" "Save example_store example_csr []" CSRMatrix_default
      example_store "[]" example_csr]
  have r: "example_csr = \<lparr>num_rows = 4, num_cols = 4, indptr = Some 0, indices = Some 1,
      data = Some 2, sorted_flag = False\<rparr>"
    by (simp add: example_csr_def)
  from t example_Load_Save have v: "CheckValidity example_store example_csr = Inr ()"
    by blast
  with t r have "CSRMatrix_new example_store 4 4 (Some 0) (Some 1) (Some 2) False = Inr example_csr"
    by blast
  moreover from t v have "\<exists>p. deref example_store (indptr example_csr) = Some p \<and>
      int (length (elems p)) = sint (num_rows example_csr) + 1"
    by blast
  ultimately show ?thesis
    using v example_Load_Save by blast
qed

text \<open>
  C7. \<^verbatim>\<open>Load\<close> reads the magic number first: when the stream starts with a scalar other
  than the magic constant, the load fails with the fault of that check, whatever follows
  in the stream and whatever the matrix held. When the magic matches and the six fields
  can be read, the result is that of the constructor's check on the fields read, so a
  successful load has passed \<^verbatim>\<open>CheckValidity\<close>.
\<close>

theorem Load_magic_then_validity:
  "(w \<noteq> kDGLSerialize_AtenCsrMatrixMagic \<longrightarrow>
      Load s (Scalar64 w # r) this = Inl (CheckFailed ''Invalid CSRMatrix Data'')) \<and>
   (Read_array s fs3 = Some (s1, p, fs4) \<and> Read_array s1 fs4 = Some (s2, i, fs5) \<and>
    Read_array s2 fs5 = Some (s3, d, Flag b # fs7) \<longrightarrow>
      Load s (Scalar64 kDGLSerialize_AtenCsrMatrixMagic # Scalar64 nc # Scalar64 nr # fs3) this =
        (case CSRMatrix_new s3 nr nc p i d b of Inl e \<Rightarrow> Inl e
         | Inr m \<Rightarrow> Inr (s3, fs7, m))) \<and>
   (Load s fs this = Inr (s', fs', m') \<longrightarrow>
      (\<exists>r'. fs = Scalar64 kDGLSerialize_AtenCsrMatrixMagic # r') \<and>
      CheckValidity s' m' = Inr ())"
proof (intro conjI impI)
  assume "w \<noteq> kDGLSerialize_AtenCsrMatrixMagic"
  then show "Load s (Scalar64 w # r) this = Inl (CheckFailed ''Invalid CSRMatrix Data'')"
    by (simp add: Load_def Read_scalar_def)
next
  assume "Read_array s fs3 = Some (s1, p, fs4) \<and> Read_array s1 fs4 = Some (s2, i, fs5) \<and>
    Read_array s2 fs5 = Some (s3, d, Flag b # fs7)"
  then show "Load s (Scalar64 kDGLSerialize_AtenCsrMatrixMagic # Scalar64 nc # Scalar64 nr # fs3) this =
      (case CSRMatrix_new s3 nr nc p i d b of Inl e \<Rightarrow> Inl e | Inr m \<Rightarrow> Inr (s3, fs7, m))"
    by (auto simp: Load_def Read_scalar_def Read_flag_def CSRMatrix_new_def
        Load_fields_record Let_def split: sum.splits)
next
  assume a: "Load s fs this = Inr (s', fs', m')"
  then show "\<exists>r'. fs = Scalar64 kDGLSerialize_AtenCsrMatrixMagic # r'"
    unfolding Load_def Read_scalar_def
    by (auto split: option.splits list.splits item.splits if_splits)
  from a show "CheckValidity s' m' = Inr ()"
    by (rule Load_Inr_valid)
qed

theorem Load_magic_then_validity_witness:
  "Load [] (Scalar64 0 # Save example_store example_csr []) CSRMatrix_default =
     Inl (CheckFailed ''Invalid CSRMatrix Data'') \<and>
   Load [] (Save example_store example_csr []) CSRMatrix_default =
     Inr (example_store, [], example_csr) \<and>
   CheckValidity example_store example_csr = Inr ()"
proof -
  have "(0 :: 64 word) \<noteq> kDGLSerialize_AtenCsrMatrixMagic"
    by (simp add: kDGLSerialize_AtenCsrMatrixMagic_def)
  then show ?thesis
    using Load_magic_then_validity [of 0 "[]" "Save example_store example_csr []"
        CSRMatrix_default _ _ _ _ _ _ _ _ _ _ _ _ _ "Save example_store example_csr []"
        example_store "[]" example_csr]
      example_Load_Save
    by blast
qed

text \<open>
  C10. The default constructor yields a matrix without running any check: no rows, no
  columns, not sorted, and three null arrays. Its indptr refers to no buffer, so no
  buffer of length \<^verbatim>\<open>num_rows + 1\<close> stands behind it, and \<^verbatim>\<open>CheckValidity\<close> would fail
  on it in every store.
\<close>

theorem default_matrix_unchecked:
  "num_rows CSRMatrix_default = 0 \<and> num_cols CSRMatrix_default = 0 \<and>
   \<not> sorted_flag CSRMatrix_default \<and>
   IsNullArray (indptr CSRMatrix_default) \<and> IsNullArray (indices CSRMatrix_default) \<and>
   IsNullArray (data CSRMatrix_default) \<and>
   \<not> (\<exists>p. deref s (indptr CSRMatrix_default) = Some p \<and>
         int (length (elems p)) = sint (num_rows CSRMatrix_default) + 1) \<and>
   CheckValidity s CSRMatrix_default = Inl NullDeref"
  by (simp add: CSRMatrix_default_def IsNullArray_def deref_def CheckValidity_def)

section \<open>Copying\<close>

lemma deref_append_old:
  "deref s a = Some b \<Longrightarrow> deref (s @ t) a = Some b"
  by (auto simp: deref_def nth_append split: option.splits if_splits)

lemma deref_append_at1: "deref (s @ x # t) (Some (length s)) = Some x"
  by (simp add: deref_def)

text \<open>
  C6. For a valid matrix, \<^verbatim>\<open>CopyTo\<close> with the location of its indptr returns the matrix
  itself and leaves the store as it is: the same handles, no new buffer. With another
  location it returns a matrix on new buffers (addresses the old store does not have,
  the old buffers untouched) with the same shape, the same flag, equal contents in all
  three arrays, and a null data array exactly when the original's is null; the new
  matrix passes the validity check.
\<close>

theorem CopyTo_alias_or_copy:
  assumes v: "CheckValidity s m = Inr ()"
  shows "\<exists>p. deref s (indptr m) = Some p \<and>
     (c = ctx p \<longrightarrow> CopyTo s m c = Inr (s, m)) \<and>
     (c \<noteq> ctx p \<longrightarrow>
        (\<exists>s' m'. CopyTo s m c = Inr (s', m') \<and>
           num_rows m' = num_rows m \<and> num_cols m' = num_cols m \<and>
           sorted_flag m' = sorted_flag m \<and>
           array_elems s' (indptr m') = array_elems s (indptr m) \<and>
           array_elems s' (indices m') = array_elems s (indices m) \<and>
           array_elems s' (data m') = array_elems s (data m) \<and>
           (IsNullArray (data m') \<longleftrightarrow> IsNullArray (data m)) \<and>
           deref s (indptr m') = None \<and> deref s (indices m') = None \<and>
           deref s (data m') = None \<and>
           take (length s) s' = s \<and>
           CheckValidity s' m' = Inr ()))"
proof -
  from v obtain p i where p: "deref s (indptr m) = Some p" and i: "deref s (indices m) = Some i"
    and pi: "dtype p = dtype i" "ctx p = ctx i"
    and d: "data m \<noteq> None \<longrightarrow> (\<exists>d. deref s (data m) = Some d \<and> dtype p = dtype d \<and> ctx p = ctx d)"
    and ov: "no_overflow (dtype p) (num_rows m)" "no_overflow (dtype p) (num_cols m)"
    and len: "int (length (elems p)) = sint (num_rows m) + 1" "length (elems p) < 2 ^ 63"
    unfolding CheckValidity_Inr_iff by blast
  have same: "c = ctx p \<Longrightarrow> CopyTo s m c = Inr (s, m)"
    by (simp add: CopyTo_def p)
  have copy: "\<exists>s' m'. CopyTo s m c = Inr (s', m') \<and>
           num_rows m' = num_rows m \<and> num_cols m' = num_cols m \<and>
           sorted_flag m' = sorted_flag m \<and>
           array_elems s' (indptr m') = array_elems s (indptr m) \<and>
           array_elems s' (indices m') = array_elems s (indices m) \<and>
           array_elems s' (data m') = array_elems s (data m) \<and>
           (IsNullArray (data m') \<longleftrightarrow> IsNullArray (data m)) \<and>
           deref s (indptr m') = None \<and> deref s (indices m') = None \<and>
           deref s (data m') = None \<and>
           take (length s) s' = s \<and>
           CheckValidity s' m' = Inr ()" if ne: "c \<noteq> ctx p"
  proof (cases "data m")
    case None
    let ?s' = "s @ [p\<lparr>ctx := c\<rparr>, i\<lparr>ctx := c\<rparr>]"
    let ?m' = "\<lparr>num_rows = num_rows m, num_cols = num_cols m, indptr = Some (length s),
       indices = Some (Suc (length s)), data = None, sorted_flag = sorted_flag m\<rparr>"
    have dp: "deref ?s' (Some (length s)) = Some (p\<lparr>ctx := c\<rparr>)"
      and di: "deref ?s' (Some (Suc (length s))) = Some (i\<lparr>ctx := c\<rparr>)"
      by (simp_all add: deref_def nth_append)
    have val: "CheckValidity ?s' ?m' = Inr ()"
      unfolding CheckValidity_Inr_iff using pi ov len by (simp add: dp di)
    have "CopyTo s m c = Inr (?s', ?m')"
      using ne p i None val
      by (simp add: CopyTo_def NDArray_CopyTo_def alloc_def deref_append_old [of s _ _ "[_]"]
          IsNullArray_def CSRMatrix_new_def)
    moreover have "array_elems ?s' (indptr ?m') = array_elems s (indptr m)"
      "array_elems ?s' (indices ?m') = array_elems s (indices m)"
      "array_elems ?s' (data ?m') = array_elems s (data m)"
      using p i None dp di by (simp_all add: array_elems_def deref_def)
    moreover have "deref s (indptr ?m') = None" "deref s (indices ?m') = None"
      "deref s (data ?m') = None"
      by (simp_all add: deref_def)
    ultimately show ?thesis
      using val None by (auto simp: IsNullArray_def)
  next
    case (Some a)
    with d obtain dd where dd: "deref s (data m) = Some dd" "dtype p = dtype dd" "ctx p = ctx dd"
      by auto
    let ?s' = "s @ [p\<lparr>ctx := c\<rparr>, i\<lparr>ctx := c\<rparr>, dd\<lparr>ctx := c\<rparr>]"
    let ?m' = "\<lparr>num_rows = num_rows m, num_cols = num_cols m, indptr = Some (length s),
       indices = Some (Suc (length s)), data = Some (Suc (Suc (length s))), sorted_flag = sorted_flag m\<rparr>"
    have dp: "deref ?s' (Some (length s)) = Some (p\<lparr>ctx := c\<rparr>)"
      and di: "deref ?s' (Some (Suc (length s))) = Some (i\<lparr>ctx := c\<rparr>)"
      and ddd: "deref ?s' (Some (Suc (Suc (length s)))) = Some (dd\<lparr>ctx := c\<rparr>)"
      by (simp_all add: deref_def nth_append)
    have val: "CheckValidity ?s' ?m' = Inr ()"
      unfolding CheckValidity_Inr_iff using pi ov len dd by (simp add: dp di ddd)
    have i1: "deref (s @ [p\<lparr>ctx := c\<rparr>]) (indices m) = Some i"
      using i by (rule deref_append_old)
    have d2: "deref (s @ [p\<lparr>ctx := c\<rparr>, i\<lparr>ctx := c\<rparr>]) (data m) = Some dd"
      using dd(1) by (rule deref_append_old)
    have "CopyTo s m c = Inr (?s', ?m')"
      using ne p i1 d2 Some val
      by (simp add: CopyTo_def NDArray_CopyTo_def alloc_def IsNullArray_def CSRMatrix_new_def)
    moreover have "array_elems ?s' (indptr ?m') = array_elems s (indptr m)"
      "array_elems ?s' (indices ?m') = array_elems s (indices m)"
      "array_elems ?s' (data ?m') = array_elems s (data m)"
      using p i dd dp di ddd by (simp_all add: array_elems_def)
    moreover have "deref s (indptr ?m') = None" "deref s (indices ?m') = None"
      "deref s (data ?m') = None"
      by (simp_all add: deref_def)
    ultimately show ?thesis
      using val Some by (auto simp: IsNullArray_def)
  qed
  from p same copy show ?thesis by blast
qed

theorem CopyTo_alias_or_copy_witness:
  "CheckValidity example_store example_csr = Inr () \<and>
   CopyTo example_store example_csr cpu0 = Inr (example_store, example_csr) \<and>
   (\<exists>s' m'. CopyTo example_store example_csr gpu0 = Inr (s', m') \<and>
      array_elems s' (indices m') = Some [1, 0, 2, 3, 1] \<and>
      deref example_store (indices m') = None)"
proof -
  have p: "deref example_store (indptr example_csr) = Some (id_tensor [0, 2, 3, 3, 5])"
    by (simp add: example_store_def example_csr_def deref_def)
  have c: "ctx (id_tensor [0, 2, 3, 3, 5]) = cpu0" "gpu0 \<noteq> cpu0"
    by (simp_all add: id_tensor_def cpu0_def gpu0_def)
  have i: "array_elems example_store (indices example_csr) = Some [1, 0, 2, 3, 1]"
    by (simp add: example_store_def example_csr_def deref_def array_elems_def id_tensor_def)
  from CopyTo_alias_or_copy [OF example_csr_valid, of cpu0] p c
  have "CopyTo example_store example_csr cpu0 = Inr (example_store, example_csr)"
    by auto
  moreover from CopyTo_alias_or_copy [OF example_csr_valid, of gpu0] p c i
  have "\<exists>s' m'. CopyTo example_store example_csr gpu0 = Inr (s', m') \<and>
      array_elems s' (indices m') = Some [1, 0, 2, 3, 1] \<and>
      deref example_store (indices m') = None"
    by auto
  ultimately show ?thesis
    using example_csr_valid by blast
qed

section \<open>Rows and sorting\<close>

lemma length_rows_of: "length (rows_of ip xs) = length ip - 1"
  by (induction ip xs rule: rows_of.induct) auto

lemma rows_of_map: "rows_of ip (map f xs) = map (map f) (rows_of ip xs)"
  by (induction ip xs rule: rows_of.induct) (auto simp: slice_def take_map drop_map)

lemma rows_of_chop:
  "sorted (lo # ip) \<Longrightarrow> 0 \<le> lo \<Longrightarrow> rows_of (lo # ip) xs = chop (degs (lo # ip)) (drop (nat lo) xs)"
proof (induction ip arbitrary: lo)
  case Nil
  then show ?case by simp
next
  case (Cons hi ip)
  then have "lo \<le> hi" "sorted (hi # ip)" "0 \<le> hi" by auto
  with Cons.IH [of hi] have "rows_of (hi # ip) xs = chop (degs (hi # ip)) (drop (nat hi) xs)"
    by simp
  moreover have "drop (nat hi - nat lo) (drop (nat lo) xs) = drop (nat hi) xs"
    using \<open>lo \<le> hi\<close> \<open>0 \<le> lo\<close> by simp
  ultimately show ?case by (simp add: slice_def)
qed

lemma sum_list_degs:
  "sorted (lo # ip) \<Longrightarrow> 0 \<le> lo \<Longrightarrow> sum_list (degs (lo # ip)) = nat (last (lo # ip)) - nat lo"
proof (induction ip arbitrary: lo)
  case Nil
  then show ?case by simp
next
  case (Cons hi ip)
  then have h: "lo \<le> hi" "sorted (hi # ip)" "0 \<le> hi" by auto
  with Cons.IH [of hi] have "sum_list (degs (hi # ip)) = nat (last (hi # ip)) - nat hi"
    by simp
  moreover have "hi \<le> last (hi # ip)"
    using h(2) by (metis last_in_set list.distinct(1) order_refl set_ConsD sorted_simps(2))
  ultimately show ?case using h Cons.prems by simp
qed

lemma chop_concat: "chop (map length rs) (concat rs @ t) = rs"
  by (induction rs) auto

lemma map_length_chop: "sum_list ds \<le> length xs \<Longrightarrow> map length (chop ds xs) = ds"
  by (induction ds arbitrary: xs) auto

lemma concat_chop: "concat (chop ds xs) = take (sum_list ds) xs"
  by (induction ds arbitrary: xs) (auto simp: take_add)

lemma rows_of_invariant_chop:
  "csr_invariant nr ip idx dat \<Longrightarrow> rows_of ip xs = chop (degs ip) xs"
  using rows_of_chop [of "hd ip" "tl ip" xs]
  by (cases ip) (auto simp: csr_invariant_def)

lemma sum_list_degs_invariant:
  "csr_invariant nr ip idx dat \<Longrightarrow> sum_list (degs ip) = length idx"
  using sum_list_degs [of "hd ip" "tl ip"]
  by (cases ip) (auto simp: csr_invariant_def)

lemma concat_rows_of:
  "csr_invariant nr ip idx dat \<Longrightarrow> length xs = length idx \<Longrightarrow> concat (rows_of ip xs) = xs"
  by (simp add: rows_of_invariant_chop [of nr ip idx dat] concat_chop sum_list_degs_invariant)

lemma rows_of_rebuild:
  assumes inv: "csr_invariant nr ip idx dat" and len: "length xs = length idx"
    and g: "map length rs = map length (rows_of ip xs)"
  shows "rows_of ip (concat rs) = rs"
proof -
  have "map length (rows_of ip xs) = degs ip"
    using inv len
    by (simp add: rows_of_invariant_chop [OF inv] map_length_chop sum_list_degs_invariant [OF inv])
  with g have "degs ip = map length rs" by simp
  then show ?thesis
    using chop_concat [of rs "[]"] by (simp add: rows_of_invariant_chop [OF inv])
qed

lemma length_sort_rows:
  "csr_invariant nr ip idx dat \<Longrightarrow> length ps = length idx \<Longrightarrow> length (sort_rows ip ps) = length ps"
proof -
  assume a: "csr_invariant nr ip idx dat" "length ps = length idx"
  have "length (concat (map (sort_key fst) rs)) = length (concat rs)" for rs :: "(int \<times> 'b) list list"
    by (induction rs) auto
  from this [of "rows_of ip ps"] concat_rows_of [OF a] show ?thesis
    by (simp add: sort_rows_def)
qed

lemma rows_of_sort_rows:
  assumes "csr_invariant nr ip idx dat" "length ps = length idx"
  shows "rows_of ip (sort_rows ip ps) = map (sort_key fst) (rows_of ip ps)"
  unfolding sort_rows_def
  by (rule rows_of_rebuild [OF assms]) (simp add: comp_def)

lemma sort_key_twice: "sort_key f (sort_key f xs) = sort_key f xs"
  by (simp add: sort_key_id_if_sorted)

lemma sort_rows_idem:
  assumes "csr_invariant nr ip idx dat" "length ps = length idx"
  shows "sort_rows ip (sort_rows ip ps) = sort_rows ip ps"
  by (simp add: sort_rows_def [of ip "sort_rows ip ps"] rows_of_sort_rows [OF assms] comp_def sort_key_twice)
    (simp add: sort_rows_def)

lemma map_insort_key: "map f (insort_key f x xs) = insort (f x) (map f xs)"
  by (induction xs) auto

lemma map_fst_sort_key: "map fst (sort_key fst ps) = sort (map fst ps)"
  by (induction ps) (auto simp: map_insort_key)

lemma set_elems_append1:
  "set_elems (s @ a # t) (Some (length s)) xs = s @ a\<lparr>elems := xs\<rparr> # t"
  by (simp add: set_elems_def list_update_append nth_append)

lemma set_elems_append2:
  "set_elems (s @ a # b # t) (Some (Suc (length s))) xs = s @ a # b\<lparr>elems := xs\<rparr> # t"
  by (simp add: set_elems_def list_update_append nth_append)

lemma deref_append_at2: "deref (s @ x # y # t) (Some (Suc (length s))) = Some y"
  by (simp add: deref_def nth_append)

lemma map_fst_sort_rows:
  "map fst (sort_rows ip ps) = concat (map sort (rows_of ip (map fst ps)))"
  by (simp add: sort_rows_def map_concat rows_of_map comp_def map_fst_sort_key)

lemma sort_cols_idem:
  assumes "csr_invariant nr ip idx dat" "length xs = length idx"
  shows "concat (map sort (rows_of ip (concat (map sort (rows_of ip xs))))) =
         concat (map sort (rows_of ip (xs :: int list)))"
proof -
  have "rows_of ip (concat (map sort (rows_of ip xs))) = map sort (rows_of ip xs)"
    by (rule rows_of_rebuild [OF assms]) (simp add: comp_def)
  then show ?thesis
    by (simp add: comp_def sort_key_id_if_sorted)
qed

lemma CSRSort_unsorted_data:
  assumes "\<not> sorted_flag m" "data m = Some a" "deref s (indptr m) = Some p"
    "deref s (indices m) = Some bi" "deref s (data m) = Some bd"
    "CheckValidity s m = Inr ()"
  shows "CSRSort f s m =
    (if csr_invariant (sint (num_rows m)) (elems p) (elems bi) (elems bd)
     then Inr (s @ [bi\<lparr>elems := map fst (sort_rows (elems p) (zip (elems bi) (elems bd)))\<rparr>,
                    bd\<lparr>elems := map snd (sort_rows (elems p) (zip (elems bi) (elems bd)))\<rparr>],
               \<lparr>num_rows = num_rows m, num_cols = num_cols m, indptr = indptr m,
                indices = Some (length s), data = Some (Suc (length s)), sorted_flag = f\<rparr>)
     else Inl InvalidMatrix)"
proof -
  let ?s' = "s @ [bi, bd]"
  let ?ret = "\<lparr>num_rows = num_rows m, num_cols = num_cols m, indptr = indptr m,
                indices = Some (length s), data = Some (Suc (length s)), sorted_flag = False\<rparr>"
  have p': "deref ?s' (indptr m) = Some p"
    using assms(3) by (rule deref_append_old)
  have d1: "deref (s @ [bi]) (data m) = Some bd"
    using assms(5) by (rule deref_append_old)
  have val: "CheckValidity ?s' ?ret = Inr ()"
    using assms(2-6) unfolding CheckValidity_Inr_iff
    by (auto simp: p' deref_append_at1 deref_append_at2)
  have rd: "read_csr ?s' ?ret =
      (if csr_invariant (sint (num_rows m)) (elems p) (elems bi) (elems bd)
       then Inr (elems p, elems bi, elems bd) else Inl InvalidMatrix)"
    by (simp add: read_csr_def array_elems_def data_ids_def IsNullArray_def p'
        deref_append_at1 deref_append_at2)
  have "CSRSort f s m = CSRSort_inplace f ?s' ?ret"
    using assms(1,2,4) d1 val
    by (simp add: CSRSort_def NDArray_Clone_def alloc_def CSRHasData_def IsNullArray_def
        CSRMatrix_new_def)
  then show ?thesis
    by (simp add: CSRSort_inplace_def rd Let_def CSRHasData_def IsNullArray_def
        set_elems_append1 set_elems_append2)
qed

lemma CSRSort_unsorted_nodata:
  assumes "\<not> sorted_flag m" "data m = None" "deref s (indptr m) = Some p"
    "deref s (indices m) = Some bi" "CheckValidity s m = Inr ()"
  shows "CSRSort f s m =
    (if csr_invariant (sint (num_rows m)) (elems p) (elems bi) (map int [0..<length (elems bi)])
     then Inr (s @ [bi\<lparr>elems := concat (map sort (rows_of (elems p) (elems bi)))\<rparr>],
               \<lparr>num_rows = num_rows m, num_cols = num_cols m, indptr = indptr m,
                indices = Some (length s), data = None, sorted_flag = f\<rparr>)
     else Inl InvalidMatrix)"
proof -
  let ?s' = "s @ [bi]"
  let ?ret = "\<lparr>num_rows = num_rows m, num_cols = num_cols m, indptr = indptr m,
                indices = Some (length s), data = None, sorted_flag = False\<rparr>"
  have p': "deref ?s' (indptr m) = Some p"
    using assms(3) by (rule deref_append_old)
  have val: "CheckValidity ?s' ?ret = Inr ()"
    using assms(2-5) unfolding CheckValidity_Inr_iff
    by (auto simp: p' deref_append_at1)
  have rd: "read_csr ?s' ?ret =
      (if csr_invariant (sint (num_rows m)) (elems p) (elems bi) (map int [0..<length (elems bi)])
       then Inr (elems p, elems bi, map int [0..<length (elems bi)]) else Inl InvalidMatrix)"
    by (simp add: read_csr_def array_elems_def data_ids_def IsNullArray_def p'
        deref_append_at1)
  have "CSRSort f s m = CSRSort_inplace f ?s' ?ret"
    using assms(1,2,4) val
    by (simp add: CSRSort_def NDArray_Clone_def alloc_def CSRHasData_def IsNullArray_def
        CSRMatrix_new_def)
  then show ?thesis
    by (simp add: CSRSort_inplace_def rd Let_def CSRHasData_def IsNullArray_def
        set_elems_append1 map_fst_sort_rows)
qed


lemma length_sort_cols:
  assumes "csr_invariant nr ip idx dat" "length xs = length idx"
  shows "length (concat (map sort (rows_of ip xs))) = length (xs :: int list)"
proof -
  have "length (concat (map sort rs)) = length (concat rs)" for rs :: "int list list"
    by (induction rs) auto
  from this [of "rows_of ip xs"] concat_rows_of [OF assms] show ?thesis by simp
qed

lemma CSRSort_sorted: "sorted_flag m \<Longrightarrow> CSRSort f s m = Inr (s, m)"
  by (simp add: CSRSort_def)

lemma CSRSort_again:
  assumes v: "CheckValidity s m = Inr ()" and A: "CSRSort f s m = Inr (s1, m1)"
  shows "\<exists>s2 m2. CSRSort f s1 m1 = Inr (s2, m2) \<and> csr_view s2 m2 = csr_view s1 m1"
proof (cases "sorted_flag m")
  case True
  with A show ?thesis by (simp add: CSRSort_def)
next
  case unsorted: False
  from v obtain p bi where p: "deref s (indptr m) = Some p" and bi: "deref s (indices m) = Some bi"
    and pi: "dtype p = dtype bi" "ctx p = ctx bi"
    and d: "data m \<noteq> None \<longrightarrow> (\<exists>d. deref s (data m) = Some d \<and> dtype p = dtype d \<and> ctx p = ctx d)"
    and ov: "no_overflow (dtype p) (num_rows m)" "no_overflow (dtype p) (num_cols m)"
    and len: "int (length (elems p)) = sint (num_rows m) + 1" "length (elems p) < 2 ^ 63"
    unfolding CheckValidity_Inr_iff by blast
  show ?thesis
  proof (cases "data m")
    case None
    let ?idx' = "concat (map sort (rows_of (elems p) (elems bi)))"
    let ?bi' = "bi\<lparr>elems := ?idx'\<rparr>"
    note first = CSRSort_unsorted_nodata [OF unsorted None p bi v, of f]
    from A first have inv: "csr_invariant (sint (num_rows m)) (elems p) (elems bi)
        (map int [0..<length (elems bi)])"
      by (auto split: if_splits)
    with A first have s1: "s1 = s @ [?bi']"
      and m1: "m1 = \<lparr>num_rows = num_rows m, num_cols = num_cols m, indptr = indptr m,
                indices = Some (length s), data = None, sorted_flag = f\<rparr>"
      by simp_all
    show ?thesis
    proof (cases f)
      case True
      with m1 have "CSRSort f s1 m1 = Inr (s1, m1)" by (simp add: CSRSort_def)
      then show ?thesis by blast
    next
      case False
      have p1: "deref s1 (indptr m1) = Some p"
        using p by (simp add: s1 m1 deref_append_old)
      have b1: "deref s1 (indices m1) = Some ?bi'"
        by (simp add: s1 m1 deref_append_at1)
      have v1: "CheckValidity s1 m1 = Inr ()"
        unfolding CheckValidity_Inr_iff using p1 b1 pi ov len by (auto simp: m1)
      have l: "length ?idx' = length (elems bi)"
        by (rule length_sort_cols [OF inv]) simp
      have inv1: "csr_invariant (sint (num_rows m1)) (elems p) (elems ?bi')
          (map int [0..<length (elems ?bi')])"
        using inv l by (simp add: m1 csr_invariant_def)
      have idem: "concat (map sort (rows_of (elems p) ?idx')) = ?idx'"
        by (rule sort_cols_idem [OF inv]) simp
      have "CSRSort f s1 m1 = Inr (s1 @ [?bi'],
          \<lparr>num_rows = num_rows m, num_cols = num_cols m, indptr = indptr m,
           indices = Some (length s1), data = None, sorted_flag = f\<rparr>)"
        using CSRSort_unsorted_nodata [OF _ _ p1 b1 v1, of f] inv1 False idem
        by (simp add: m1)
      moreover have "csr_view (s1 @ [?bi'])
          \<lparr>num_rows = num_rows m, num_cols = num_cols m, indptr = indptr m,
           indices = Some (length s1), data = None, sorted_flag = f\<rparr> = csr_view s1 m1"
        using p1 b1 by (simp add: csr_view_def array_elems_def m1 deref_append_old
            deref_append_at1 deref_def [of _ None])
      ultimately show ?thesis by blast
    qed
  next
    case (Some a)
    with d obtain bd where bd: "deref s (data m) = Some bd"
      and pd: "dtype p = dtype bd" "ctx p = ctx bd"
      by auto
    let ?ps = "sort_rows (elems p) (zip (elems bi) (elems bd))"
    let ?bi' = "bi\<lparr>elems := map fst ?ps\<rparr>"
    let ?bd' = "bd\<lparr>elems := map snd ?ps\<rparr>"
    note first = CSRSort_unsorted_data [OF unsorted Some p bi bd v, of f]
    from A first have inv: "csr_invariant (sint (num_rows m)) (elems p) (elems bi) (elems bd)"
      by (auto split: if_splits)
    with A first have s1: "s1 = s @ [?bi', ?bd']"
      and m1: "m1 = \<lparr>num_rows = num_rows m, num_cols = num_cols m, indptr = indptr m,
                indices = Some (length s), data = Some (Suc (length s)), sorted_flag = f\<rparr>"
      by simp_all
    show ?thesis
    proof (cases f)
      case True
      with m1 have "CSRSort f s1 m1 = Inr (s1, m1)" by (simp add: CSRSort_def)
      then show ?thesis by blast
    next
      case False
      have lz: "length (zip (elems bi) (elems bd)) = length (elems bi)"
        using inv by (simp add: csr_invariant_def)
      have l: "length ?ps = length (elems bi)"
        using length_sort_rows [OF inv lz] lz by simp
      have p1: "deref s1 (indptr m1) = Some p"
        using p by (simp add: s1 m1 deref_append_old)
      have b1: "deref s1 (indices m1) = Some ?bi'"
        by (simp add: s1 m1 deref_append_at1)
      have d1: "deref s1 (data m1) = Some ?bd'"
        by (simp add: s1 m1 deref_append_at2)
      have v1: "CheckValidity s1 m1 = Inr ()"
        unfolding CheckValidity_Inr_iff using p1 b1 d1 pi pd ov len by (auto simp: m1)
      have inv1: "csr_invariant (sint (num_rows m1)) (elems p) (elems ?bi') (elems ?bd')"
        using inv l by (simp add: m1 csr_invariant_def)
      have idem: "sort_rows (elems p) (zip (elems ?bi') (elems ?bd')) = ?ps"
        using sort_rows_idem [OF inv lz] by (simp add: zip_map_fst_snd)
      have "CSRSort f s1 m1 = Inr (s1 @ [?bi', ?bd'],
          \<lparr>num_rows = num_rows m, num_cols = num_cols m, indptr = indptr m,
           indices = Some (length s1), data = Some (Suc (length s1)), sorted_flag = f\<rparr>)"
        using CSRSort_unsorted_data [OF _ _ p1 b1 d1 v1, of _ f] inv1 False idem
        by (simp add: m1)
      moreover have "csr_view (s1 @ [?bi', ?bd'])
          \<lparr>num_rows = num_rows m, num_cols = num_cols m, indptr = indptr m,
           indices = Some (length s1), data = Some (Suc (length s1)), sorted_flag = f\<rparr> =
          csr_view s1 m1"
        using p1 b1 d1 by (simp add: csr_view_def array_elems_def m1 deref_append_old
            deref_append_at1 deref_append_at2)
      ultimately show ?thesis by blast
    qed
  qed
qed

text \<open>
  C5. \<^verbatim>\<open>CSRSort\<close> on a matrix whose sorted flag is set returns the same matrix and the
  same store: nothing is cloned. And sorting is idempotent: when the sort of a valid
  matrix returns, sorting the result returns too, and the second result holds what the
  first holds (shape, the contents of indptr, indices and data, and the flag).
\<close>

theorem CSRSort_idempotent:
  "(sorted_flag m \<longrightarrow> CSRSort f s m = Inr (s, m)) \<and>
   (CheckValidity s m = Inr () \<and> CSRSort f s m = Inr (s1, m1) \<longrightarrow>
      (\<exists>s2 m2. CSRSort f s1 m1 = Inr (s2, m2) \<and> csr_view s2 m2 = csr_view s1 m1))"
  using CSRSort_sorted [of m f s] CSRSort_again [of s m f s1 m1] by blast

lemma example_CSRSort:
  "CSRSort False example_store example_csr = Inr (sorted_store, sorted_csr)"
  by (simp add: CSRSort_def example_store_def example_csr_def sorted_store_def sorted_csr_def
    NDArray_Clone_def alloc_def deref_def CSRHasData_def IsNullArray_def CSRMatrix_new_def
    CheckValidity_def id_tensor_def no_overflow_def int64_dtype_def CSRSort_inplace_def
    read_csr_def array_elems_def data_ids_def csr_invariant_def sort_rows_def slice_def
    set_elems_def numeral_3_eq_3 numeral_2_eq_2 eval_nat_numeral)

theorem CSRSort_idempotent_witness:
  "CheckValidity example_store example_csr = Inr () \<and>
   CSRSort False example_store example_csr = Inr (sorted_store, sorted_csr) \<and>
   (\<exists>s2 m2. CSRSort False sorted_store sorted_csr = Inr (s2, m2) \<and>
      csr_view s2 m2 = csr_view sorted_store sorted_csr) \<and>
   sorted_flag (sorted_csr\<lparr>sorted_flag := True\<rparr>) \<and>
   CSRSort False sorted_store (sorted_csr\<lparr>sorted_flag := True\<rparr>) =
     Inr (sorted_store, sorted_csr\<lparr>sorted_flag := True\<rparr>)"
  using CSRSort_idempotent [of example_csr False example_store sorted_store sorted_csr]
    CSRSort_idempotent [of "sorted_csr\<lparr>sorted_flag := True\<rparr>" False sorted_store]
    example_csr_valid example_CSRSort
  by simp

section \<open>Lookup\<close>

lemma array_elems_append_old:
  "array_elems s a = Some xs \<Longrightarrow> array_elems (s @ t) a = Some xs"
  by (auto simp: array_elems_def deref_append_old)

lemma read_csr_append:
  "read_csr s m = Inr v \<Longrightarrow> read_csr (s @ t) m = Inr v"
  unfolding read_csr_def data_ids_def
  by (auto simp: array_elems_append_old split: option.splits if_splits)

lemma read_csr_indptr:
  "read_csr s m = Inr (ip, idx, dat) \<Longrightarrow> \<exists>p. deref s (indptr m) = Some p \<and> elems p = ip"
  unfolding read_csr_def array_elems_def
  by (auto split: option.splits if_splits)

lemma array_elems_at1: "array_elems (s @ x # t) (Some (length s)) = Some (elems x)"
  by (simp add: array_elems_def deref_def)

lemma array_elems_at2: "array_elems (s @ x # y # t) (Some (Suc (length s))) = Some (elems y)"
  by (simp add: array_elems_def deref_def nth_append)

lemma array_elems_at3:
  "array_elems (s @ x # y # z # t) (Some (Suc (Suc (length s)))) = Some (elems z)"
  by (simp add: array_elems_def deref_def nth_append)

lemma CSRGetDataAndIndices_result:
  assumes "read_csr s mat = Inr (ip, idx, dat)" "array_elems s rows = Some rs"
    "array_elems s cols = Some cs" "broadcast rs cs = Some qs"
  shows "\<exists>s' a b c. CSRGetDataAndIndices s mat rows cols = Inr (s', [a, b, c]) \<and>
     array_elems s' a = Some (map fst (get_data_and_indices ip idx dat qs)) \<and>
     array_elems s' b = Some (map (fst \<circ> snd) (get_data_and_indices ip idx dat qs)) \<and>
     array_elems s' c = Some (map (snd \<circ> snd) (get_data_and_indices ip idx dat qs))"
proof -
  from read_csr_indptr [OF assms(1)] obtain p where p: "deref s (indptr mat) = Some p"
    by blast
  let ?out = "get_data_and_indices ip idx dat qs"
  let ?s' = "s @ [p\<lparr>elems := map fst ?out\<rparr>, p\<lparr>elems := map (fst \<circ> snd) ?out\<rparr>,
      p\<lparr>elems := map (snd \<circ> snd) ?out\<rparr>]"
  have "CSRGetDataAndIndices s mat rows cols =
      Inr (?s', [Some (length s), Some (Suc (length s)), Some (Suc (Suc (length s)))])"
    using assms p by (simp add: CSRGetDataAndIndices_def alloc_def Let_def)
  moreover have "array_elems ?s' (Some (length s)) = Some (map fst ?out)"
    by (simp add: array_elems_at1)
  moreover have "array_elems ?s' (Some (Suc (length s))) = Some (map (fst \<circ> snd) ?out)"
    by (simp add: array_elems_at2)
  moreover have "array_elems ?s' (Some (Suc (Suc (length s)))) = Some (map (snd \<circ> snd) ?out)"
    by (simp add: array_elems_at3)
  ultimately show ?thesis by blast
qed

lemma get_data_and_indices_single:
  "map (snd \<circ> snd) (get_data_and_indices ip idx dat [(r, c)]) = matches ip idx dat r c"
  by (simp add: get_data_and_indices_def comp_def)


lemma broadcast_single: "broadcast [r] [c] = Some [(r, c)]"
  by (simp add: broadcast_def)

text \<open>
  C9. On a matrix that satisfies the data model, \<^verbatim>\<open>CSRGetAllData\<close> for a row and a column
  returns an array holding the data id of every entry of that row at that column,
  duplicates included, in the order of their positions: an empty array when there is no
  such entry. It holds what the third array of \<^verbatim>\<open>CSRGetDataAndIndices\<close> holds for any
  two arrays with that row and that column as their only element.
\<close>

theorem CSRGetAllData_all_matches:
  assumes "read_csr s mat = Inr (ip, idx, dat)"
  shows "\<exists>s' h. CSRGetAllData s mat row col = Inr (s', h) \<and>
     array_elems s' h =
       Some (map snd (filter (\<lambda>e. fst e = sint col) (row_entries ip idx dat (sint row)))) \<and>
     (\<forall>rows cols. array_elems s rows = Some [sint row] \<and> array_elems s cols = Some [sint col]
        \<longrightarrow> (\<exists>s'' a b c. CSRGetDataAndIndices s mat rows cols = Inr (s'', [a, b, c]) \<and>
               array_elems s'' c = array_elems s' h))"
proof -
  from read_csr_indptr [OF assms] obtain p where p: "deref s (indptr mat) = Some p"
    by blast
  let ?r = "\<lparr>dtype = \<lparr>code = 0, bits = bits (dtype p), lanes = 1\<rparr>, ctx = ctx p,
      elems = [sint row]\<rparr>"
  let ?c = "\<lparr>dtype = \<lparr>code = 0, bits = bits (dtype p), lanes = 1\<rparr>, ctx = ctx p,
      elems = [sint col]\<rparr>"
  let ?s2 = "s @ [?r, ?c]"
  have rd: "read_csr ?s2 mat = Inr (ip, idx, dat)"
    using assms by (rule read_csr_append)
  have rows: "array_elems ?s2 (Some (length s)) = Some [sint row]"
    by (simp add: array_elems_at1)
  have cols: "array_elems ?s2 (Some (Suc (length s))) = Some [sint col]"
    by (simp add: array_elems_at2)
  from CSRGetDataAndIndices_result [OF rd rows cols broadcast_single]
  obtain s' a b c where
    g: "CSRGetDataAndIndices ?s2 mat (Some (length s)) (Some (Suc (length s))) = Inr (s', [a, b, c])"
    and c: "array_elems s' c = Some (matches ip idx dat (sint row) (sint col))"
    by (auto simp: get_data_and_indices_single)
  have all: "CSRGetAllData s mat row col = Inr (s', c)"
    using p g by (simp add: CSRGetAllData_def VecToIdArray_def alloc_def Let_def)
  have "\<exists>s'' a b c'. CSRGetDataAndIndices s mat rows cols = Inr (s'', [a, b, c']) \<and>
      array_elems s'' c' = array_elems s' c"
    if "array_elems s rows = Some [sint row]" "array_elems s cols = Some [sint col]"
    for rows cols
    using CSRGetDataAndIndices_result [OF assms that broadcast_single] c
    by (auto simp: get_data_and_indices_single)
  with all c show ?thesis
    by (auto simp: matches_def)
qed

lemma nth_get_data:
  "i < length qs \<Longrightarrow>
   get_data ip idx dat qs ! i =
     (case matches ip idx dat (fst (qs ! i)) (snd (qs ! i)) of [] \<Rightarrow> - 1 | d # _ \<Rightarrow> d)"
  by (simp add: get_data_def case_prod_beta)

text \<open>
  C3. On a matrix that satisfies the data model, \<^verbatim>\<open>CSRGetData\<close> for a batched query,
  in which a pair may occur more than once, returns an array with one element per queried
  pair: \<open>-1\<close> at the position of a pair without a matching entry, and otherwise the data
  id of one of the matching entries.
\<close>

theorem CSRGetData_one_per_pair:
  assumes "read_csr s mat = Inr (ip, idx, dat)" "array_elems s rows = Some rs"
    "array_elems s cols = Some cs" "broadcast rs cs = Some qs"
  shows "\<exists>s' h out. CSRGetData s mat rows cols = Inr (s', h) \<and>
     array_elems s' h = Some out \<and> length out = length qs \<and>
     (\<forall>i < length qs.
        (matches ip idx dat (fst (qs ! i)) (snd (qs ! i)) = [] \<longrightarrow> out ! i = - 1) \<and>
        (matches ip idx dat (fst (qs ! i)) (snd (qs ! i)) \<noteq> [] \<longrightarrow>
           out ! i \<in> set (matches ip idx dat (fst (qs ! i)) (snd (qs ! i)))))"
proof -
  from read_csr_indptr [OF assms(1)] obtain p where p: "deref s (indptr mat) = Some p"
    by blast
  let ?out = "get_data ip idx dat qs"
  have "CSRGetData s mat rows cols = Inr (s @ [p\<lparr>elems := ?out\<rparr>], Some (length s))"
    using assms p by (simp add: CSRGetData_def alloc_def)
  moreover have "array_elems (s @ [p\<lparr>elems := ?out\<rparr>]) (Some (length s)) = Some ?out"
    by (simp add: array_elems_at1)
  moreover have "length ?out = length qs"
    by (simp add: get_data_def)
  moreover have "\<forall>i < length qs.
        (matches ip idx dat (fst (qs ! i)) (snd (qs ! i)) = [] \<longrightarrow> ?out ! i = - 1) \<and>
        (matches ip idx dat (fst (qs ! i)) (snd (qs ! i)) \<noteq> [] \<longrightarrow>
           ?out ! i \<in> set (matches ip idx dat (fst (qs ! i)) (snd (qs ! i))))"
    by (auto simp: nth_get_data split: list.splits)
  ultimately show ?thesis by blast
qed

lemma example_read_csr:
  "read_csr example_store example_csr = Inr ([0, 2, 3, 3, 5], [1, 0, 2, 3, 1], [2, 3, 0, 1, 4])"
  by (simp add: read_csr_def array_elems_def deref_def example_store_def example_csr_def
      id_tensor_def data_ids_def IsNullArray_def csr_invariant_def)

lemma lookup_read_csr:
  "read_csr lookup_store example_csr = Inr ([0, 2, 3, 3, 5], [1, 0, 2, 3, 1], [2, 3, 0, 1, 4])"
  unfolding lookup_store_def using example_read_csr by (rule read_csr_append)

lemma example_rows:
  "rows_of [0, 2, 3, 3, 5] (zip [1, 0, 2, 3, 1] [2, 3, 0, 1, 4 :: int]) =
     [[(1, 2), (0, 3)], [(2, 0)], [], [(3, 1), (1, 4)]]"
  by (simp add: slice_def)

lemma example_matches:
  "matches [0, 2, 3, 3, 5] [1, 0, 2, 3, 1] [2, 3, 0, 1, 4] 3 1 = [4]"
  "matches [0, 2, 3, 3, 5] [1, 0, 2, 3, 1] [2, 3, 0, 1, 4] 0 0 = [3]"
  "matches [0, 2, 3, 3, 5] [1, 0, 2, 3, 1] [2, 3, 0, 1, 4] 3 0 = []"
  by code_simp+

theorem CSRGetAllData_all_matches_witness:
  "read_csr lookup_store example_csr = Inr ([0, 2, 3, 3, 5], [1, 0, 2, 3, 1], [2, 3, 0, 1, 4]) \<and>
   array_elems lookup_store (Some 3) = Some [sint (3 :: 64 word)] \<and>
   array_elems lookup_store (Some 4) = Some [sint (1 :: 64 word)] \<and>
   (\<exists>s' h. CSRGetAllData lookup_store example_csr 3 1 = Inr (s', h) \<and>
      array_elems s' h = Some [4] \<and>
      (\<exists>s'' a b c. CSRGetDataAndIndices lookup_store example_csr (Some 3) (Some 4) =
          Inr (s'', [a, b, c]) \<and> array_elems s'' c = Some [4]))"
proof -
  have r: "array_elems lookup_store (Some 3) = Some [sint (3 :: 64 word)]"
    and c: "array_elems lookup_store (Some 4) = Some [sint (1 :: 64 word)]"
    by (simp_all add: lookup_store_def example_store_def array_elems_def deref_def id_tensor_def)
  have m: "map snd (filter (\<lambda>e. fst e = sint (1 :: 64 word))
      (row_entries [0, 2, 3, 3, 5] [1, 0, 2, 3, 1] [2, 3, 0, 1, 4] (sint (3 :: 64 word)))) = [4]"
    using example_matches(1) by (simp add: matches_def)
  from CSRGetAllData_all_matches [OF lookup_read_csr, of 3 1] m r c
  have "\<exists>s' h. CSRGetAllData lookup_store example_csr 3 1 = Inr (s', h) \<and>
      array_elems s' h = Some [4] \<and>
      (\<exists>s'' a b c. CSRGetDataAndIndices lookup_store example_csr (Some 3) (Some 4) =
          Inr (s'', [a, b, c]) \<and> array_elems s'' c = Some [4])"
    by (metis (no_types, lifting))
  with lookup_read_csr r c show ?thesis by blast
qed

theorem CSRGetData_one_per_pair_witness:
  "read_csr lookup_store example_csr = Inr ([0, 2, 3, 3, 5], [1, 0, 2, 3, 1], [2, 3, 0, 1, 4]) \<and>
   array_elems lookup_store (Some 5) = Some [0, 3, 3, 0] \<and>
   array_elems lookup_store (Some 6) = Some [0, 1, 0, 0] \<and>
   broadcast [0, 3, 3, 0] [0, 1, 0, 0] = Some [(0, 0), (3, 1), (3, 0), (0, 0)] \<and>
   (\<exists>s' h out. CSRGetData lookup_store example_csr (Some 5) (Some 6) = Inr (s', h) \<and>
      array_elems s' h = Some out \<and> length out = 4 \<and>
      out ! 0 = 3 \<and> out ! 1 = 4 \<and> out ! 2 = - 1 \<and> out ! 3 = 3)"
proof -
  have r: "array_elems lookup_store (Some 5) = Some [0, 3, 3, 0]"
    and c: "array_elems lookup_store (Some 6) = Some [0, 1, 0, 0]"
    by (simp_all add: lookup_store_def example_store_def array_elems_def deref_def id_tensor_def)
  have b: "broadcast [0, 3, 3, 0] [0, 1, 0, 0] = Some [(0, 0), (3, 1), (3, 0), (0, 0)]"
    by (simp add: broadcast_def)
  let ?m = "\<lambda>i. matches [0, 2, 3, 3, 5] [1, 0, 2, 3, 1] [2, 3, 0, 1, 4]
      (fst ([(0, 0), (3, 1), (3, 0), (0, 0 :: int)] ! i))
      (snd ([(0 :: int, 0), (3, 1), (3, 0), (0, 0)] ! i))"
  from CSRGetData_one_per_pair [OF lookup_read_csr r c b]
  obtain s' h out where g: "CSRGetData lookup_store example_csr (Some 5) (Some 6) = Inr (s', h)"
    "array_elems s' h = Some out" "length out = 4"
    and each: "\<forall>i < 4. (?m i = [] \<longrightarrow> out ! i = - 1) \<and> (?m i \<noteq> [] \<longrightarrow> out ! i \<in> set (?m i))"
    by auto
  from each [rule_format, of 0] have "out ! 0 = 3" by (simp add: example_matches)
  moreover from each [rule_format, of 1] have "out ! 1 = 4" by (simp add: example_matches)
  moreover from each [rule_format, of 2] have "out ! 2 = - 1" by (simp add: example_matches)
  moreover from each [rule_format, of 3] have "out ! 3 = 3" by (simp add: example_matches)
  ultimately show ?thesis using g r c b lookup_read_csr by blast
qed

section \<open>Sampling\<close>

lemma length_pick_without: "length (pick_without g n t cand) = min n (length cand)"
proof (induction n arbitrary: t cand)
  case 0
  show ?case by simp
next
  case (Suc n)
  show ?case
  proof (cases "cand = []")
    case True
    then show ?thesis by simp
  next
    case False
    let ?i = "g t cand mod length cand"
    from False have "?i < length cand" by simp
    then have "length (take ?i cand @ drop (Suc ?i) cand) = length cand - 1"
      by simp
    with Suc.IH [of "Suc t" "take ?i cand @ drop (Suc ?i) cand"] False show ?thesis
      by (cases cand) (simp_all add: Let_def)
  qed
qed

lemma remove_nth_set: "i < length xs \<Longrightarrow> set (take i xs @ drop (Suc i) xs) \<subseteq> set xs"
  by (auto dest: in_set_takeD in_set_dropD)

lemma remove_nth_distinct:
  "distinct xs \<Longrightarrow> i < length xs \<Longrightarrow>
     distinct (take i xs @ drop (Suc i) xs) \<and> xs ! i \<notin> set (take i xs @ drop (Suc i) xs)"
  by (metis Cons_nth_drop_Suc append_take_drop_id distinct.simps(2) distinct_append
      disjoint_insert(1) list.simps(15) set_append UnE)

lemma pick_without_props:
  "distinct cand \<Longrightarrow> distinct (pick_without g n t cand) \<and> set (pick_without g n t cand) \<subseteq> set cand"
proof (induction n arbitrary: t cand)
  case 0
  show ?case by simp
next
  case (Suc n)
  show ?case
  proof (cases "cand = []")
    case True
    then show ?thesis by simp
  next
    case False
    let ?i = "g t cand mod length cand"
    let ?rest = "take ?i cand @ drop (Suc ?i) cand"
    from False have i: "?i < length cand" by simp
    from remove_nth_distinct [OF Suc.prems i]
    have d: "distinct ?rest" and n: "cand ! ?i \<notin> set ?rest" by simp_all
    from Suc.IH [OF d, of "Suc t"] have ih: "distinct (pick_without g n (Suc t) ?rest)"
      "set (pick_without g n (Suc t) ?rest) \<subseteq> set ?rest" by simp_all
    with remove_nth_set [OF i] n i False show ?thesis
      by (auto simp: Let_def)
  qed
qed

lemma sample_row_without:
  "distinct cand \<Longrightarrow>
   length (sample_row g k False cand) = min k (length cand) \<and>
   distinct (sample_row g k False cand) \<and>
   set (sample_row g k False cand) \<subseteq> set cand \<and>
   (length cand \<le> k \<longrightarrow> sample_row g k False cand = cand)"
  using pick_without_props [of cand g k 0]
  by (simp add: sample_row_def length_pick_without)


lemma read_csr_invariant:
  "read_csr s m = Inr (ip, idx, dat) \<Longrightarrow> csr_invariant (sint (num_rows m)) ip idx dat"
  unfolding read_csr_def by (auto split: option.splits if_splits)

lemma invariant_nth_nonneg:
  assumes "csr_invariant nr ip idx dat" "k < length ip"
  shows "0 \<le> ip ! k"
proof -
  from assms have "ip \<noteq> []" "hd ip = 0" "sorted ip"
    by (auto simp: csr_invariant_def)
  then have "ip ! 0 = 0" by (simp add: hd_conv_nth)
  moreover have "ip ! 0 \<le> ip ! k"
    using \<open>sorted ip\<close> assms(2) by (simp add: sorted_nth_mono)
  ultimately show ?thesis by simp
qed

lemma length_positions:
  assumes inv: "csr_invariant nr ip idx dat" and r: "0 \<le> r" "r < nr"
  shows "int (length (positions ip r)) = ip ! Suc (nat r) - ip ! nat r"
proof -
  from inv r have len: "Suc (nat r) < length ip"
    by (auto simp: csr_invariant_def)
  from inv have "sorted ip" by (simp add: csr_invariant_def)
  with len have "ip ! nat r \<le> ip ! Suc (nat r)"
    by (simp add: sorted_nth_mono)
  moreover have "0 \<le> ip ! nat r"
    using invariant_nth_nonneg [OF inv] len by simp
  ultimately show ?thesis by (simp add: positions_def)
qed

text \<open>
  C4. On a matrix that satisfies the data model, sampling without replacement for
  requested rows inside the matrix and a non-negative \<open>num_samples\<close> raises no fault,
  whatever the random source and the weights are. Every requested row \<open>r\<close>
  contributes a group of distinct positions of that row whose number is the smaller of
  \<open>num_samples\<close> and \<open>indptr[r+1] - indptr[r]\<close>; a row with no more entries than
  \<open>num_samples\<close> contributes all of its positions. The three result arrays list the
  groups in the order of the requests.
\<close>

theorem CSRRowWiseSampling_without_replacement:
  assumes "read_csr s mat = Inr (ip, idx, dat)" "array_elems s rows = Some rs"
    "\<forall>r \<in> set rs. 0 \<le> r \<and> r < sint (num_rows mat)" "0 \<le> sint num_samples"
  shows "\<exists>s' coo gs.
     CSRRowWiseSampling rng s mat rows num_samples prob False = Inr (s', coo) \<and>
     length gs = length rs \<and>
     (\<forall>i < length rs.
        int (length (gs ! i)) =
          min (sint num_samples) (ip ! Suc (nat (rs ! i)) - ip ! nat (rs ! i)) \<and>
        distinct (gs ! i) \<and> set (gs ! i) \<subseteq> set (positions ip (rs ! i)) \<and>
        (ip ! Suc (nat (rs ! i)) - ip ! nat (rs ! i) \<le> sint num_samples \<longrightarrow>
           gs ! i = positions ip (rs ! i))) \<and>
     array_elems s' (coo_rows coo) =
       Some (concat (map (\<lambda>i. replicate (length (gs ! i)) (rs ! i)) [0..<length rs])) \<and>
     array_elems s' (coo_cols coo) = Some (map (\<lambda>j. idx ! j) (concat gs)) \<and>
     array_elems s' (coo_data coo) = Some (map (\<lambda>j. dat ! j) (concat gs))"
proof -
  from read_csr_indptr [OF assms(1)] obtain p where p: "deref s (indptr mat) = Some p"
    by blast
  note inv = read_csr_invariant [OF assms(1)]
  let ?k = "nat (sint num_samples)"
  let ?gs = "sample_groups rng ip ?k prob False rs"
  let ?ro = "concat (map (\<lambda>i. replicate (length (?gs ! i)) (rs ! i)) [0..<length rs])"
  let ?s' = "s @ [p\<lparr>elems := ?ro\<rparr>, p\<lparr>elems := map (\<lambda>j. idx ! j) (concat ?gs)\<rparr>,
      p\<lparr>elems := map (\<lambda>j. dat ! j) (concat ?gs)\<rparr>]"
  let ?coo = "\<lparr>coo_num_rows = num_rows mat, coo_num_cols = num_cols mat,
      coo_rows = Some (length s), coo_cols = Some (Suc (length s)),
      coo_data = Some (Suc (Suc (length s)))\<rparr>"
  have ok: "list_all (\<lambda>r. 0 \<le> r \<and> r < sint (num_rows mat)) rs"
    using assms(3) by (simp add: list_all_iff)
  have run: "CSRRowWiseSampling rng s mat rows num_samples prob False = Inr (?s', ?coo)"
    using assms(1,2,4) p ok
    by (simp add: CSRRowWiseSampling_def alloc_def Let_def)
  have each: "int (length (?gs ! i)) =
          min (sint num_samples) (ip ! Suc (nat (rs ! i)) - ip ! nat (rs ! i)) \<and>
        distinct (?gs ! i) \<and> set (?gs ! i) \<subseteq> set (positions ip (rs ! i)) \<and>
        (ip ! Suc (nat (rs ! i)) - ip ! nat (rs ! i) \<le> sint num_samples \<longrightarrow>
           ?gs ! i = positions ip (rs ! i))" if i: "i < length rs" for i
  proof -
    from i assms(3) have r: "0 \<le> rs ! i" "rs ! i < sint (num_rows mat)"
      by auto
    note l = length_positions [OF inv r]
    have g: "?gs ! i = sample_row (rng i prob) ?k False (positions ip (rs ! i))"
      using i by (simp add: sample_groups_def)
    have "distinct (positions ip (rs ! i))"
      by (simp add: positions_def)
    from sample_row_without [OF this, of "rng i prob" ?k] l assms(4) show ?thesis
      unfolding g by auto
  qed
  have "length ?gs = length rs"
    by (simp add: sample_groups_def)
  moreover have "array_elems ?s' (coo_rows ?coo) = Some ?ro"
    "array_elems ?s' (coo_cols ?coo) = Some (map (\<lambda>j. idx ! j) (concat ?gs))"
    "array_elems ?s' (coo_data ?coo) = Some (map (\<lambda>j. dat ! j) (concat ?gs))"
    by (simp_all add: array_elems_at1 array_elems_at2 array_elems_at3)
  ultimately show ?thesis
    using run each by blast
qed

theorem CSRRowWiseSampling_without_replacement_witness:
  "read_csr lookup_store example_csr = Inr ([0, 2, 3, 3, 5], [1, 0, 2, 3, 1], [2, 3, 0, 1, 4]) \<and>
   array_elems lookup_store (Some 5) = Some [0, 3, 3, 0] \<and>
   list_all (\<lambda>r. 0 \<le> r \<and> r < sint (num_rows example_csr)) [0, 3, 3, 0] \<and>
   0 \<le> sint (1 :: 64 word) \<and>
   (\<exists>s' coo. CSRRowWiseSampling (\<lambda>i w t c. t) lookup_store example_csr (Some 5) 1
        ([] :: nat list) False = Inr (s', coo) \<and>
      array_elems s' (coo_rows coo) = Some [0, 3, 3, 0])"
proof -
  have r: "array_elems lookup_store (Some 5) = Some [0, 3, 3, 0]"
    by (simp add: lookup_store_def example_store_def array_elems_def deref_def id_tensor_def)
  have a: "list_all (\<lambda>r. 0 \<le> r \<and> r < sint (num_rows example_csr)) [0, 3, 3, 0]"
    by (simp add: example_csr_def)
  then have a': "\<forall>r \<in> set [0, 3, 3, 0]. 0 \<le> r \<and> r < sint (num_rows example_csr)"
    by (simp add: list_all_iff)
  have k: "0 \<le> sint (1 :: 64 word)" by simp
  let ?rs = "[0, 3, 3, 0] :: int list"
  let ?ip = "[0, 2, 3, 3, 5] :: int list"
  from CSRRowWiseSampling_without_replacement [OF lookup_read_csr r a' k,
      of "\<lambda>i w t c. t" "[] :: nat list"]
  obtain s' coo gs where run: "CSRRowWiseSampling (\<lambda>i w t c. t) lookup_store example_csr (Some 5) 1
        ([] :: nat list) False = Inr (s', coo)"
    and each: "\<forall>i < length ?rs.
        int (length (gs ! i)) =
          min (sint (1 :: 64 word)) (?ip ! Suc (nat (?rs ! i)) - ?ip ! nat (?rs ! i)) \<and>
        distinct (gs ! i) \<and> set (gs ! i) \<subseteq> set (positions ?ip (?rs ! i)) \<and>
        (?ip ! Suc (nat (?rs ! i)) - ?ip ! nat (?rs ! i) \<le> sint (1 :: 64 word) \<longrightarrow>
           gs ! i = positions ?ip (?rs ! i))"
    and ro: "array_elems s' (coo_rows coo) =
       Some (concat (map (\<lambda>i. replicate (length (gs ! i)) (?rs ! i)) [0..<length ?rs]))"
    by blast
  from each [rule_format, of 0] each [rule_format, of "Suc 0"]
    each [rule_format, of "Suc (Suc 0)"] each [rule_format, of "Suc (Suc (Suc 0))"]
  have "length (gs ! 0) = Suc 0" "length (gs ! Suc 0) = Suc 0"
    "length (gs ! Suc (Suc 0)) = Suc 0" "length (gs ! Suc (Suc (Suc 0))) = Suc 0"
    by simp_all
  with ro have "array_elems s' (coo_rows coo) = Some [0, 3, 3, 0]"
    by (simp add: upt_rec [of 0] upt_rec [of 1] upt_rec [of 2] upt_rec [of 3] numeral_3_eq_3)
  with run r a k lookup_read_csr show ?thesis by blast
qed

section \<open>Transposition\<close>

lemma length_prefix_sums: "length (prefix_sums a ds) = Suc (length ds)"
  by (induction ds arbitrary: a) auto

lemma hd_prefix_sums: "hd (prefix_sums a ds) = a"
  by (cases ds) auto

lemma prefix_sums_ge: "x \<in> set (prefix_sums a ds) \<Longrightarrow> a \<le> x"
  by (induction ds arbitrary: a) fastforce+

lemma sorted_prefix_sums: "sorted (prefix_sums a ds)"
  by (induction ds arbitrary: a) (auto dest: prefix_sums_ge)

lemma last_prefix_sums: "last (prefix_sums a ds) = a + int (sum_list ds)"
proof (induction ds arbitrary: a)
  case Nil
  show ?case by simp
next
  case (Cons d ds)
  have "prefix_sums (a + int d) ds \<noteq> []"
    by (cases ds) auto
  with Cons show ?case by simp
qed

lemma rows_of_prefix_sums:
  "length pre = a \<Longrightarrow> rows_of (prefix_sums (int a) (map length bs)) (pre @ concat bs) = bs"
proof (induction bs arbitrary: a pre)
  case Nil
  show ?case by simp
next
  case (Cons b bs)
  obtain t where t: "prefix_sums (int a + int (length b)) (map length bs) = (int a + int (length b)) # t"
    by (cases bs) auto
  have ih: "rows_of (prefix_sums (int (a + length b)) (map length bs)) ((pre @ b) @ concat bs) = bs"
    using Cons.prems by (intro Cons.IH) simp
  have sl: "slice (pre @ b @ concat bs) a (a + length b) = b"
    using Cons.prems by (simp add: slice_def)
  have "rows_of (prefix_sums (int a) (map length (b # bs))) (pre @ concat (b # bs)) =
      slice (pre @ b @ concat bs) (nat (int a)) (nat (int a + int (length b))) #
      rows_of (prefix_sums (int a + int (length b)) (map length bs)) (pre @ b @ concat bs)"
    by (simp add: t)
  also have "\<dots> = b # bs"
    using sl ih by (simp add: nat_add_distrib)
  finally show ?case .
qed

lemma select_row_enumerate:
  "map (\<lambda>(r', c, d). (c, d)) (filter (\<lambda>(r', c, d). r' = int r)
     (concat (map (\<lambda>(r, row). map (\<lambda>(c, d). (int r, c, d)) row) (enumerate k rows)))) =
   (if k \<le> r \<and> r < k + length rows then rows ! (r - k) else [])"
proof (induction rows arbitrary: k)
  case Nil
  show ?case by auto
next
  case (Cons x xs)
  have here: "map (\<lambda>(r', c, d). (c, d)) (filter (\<lambda>(r', c, d). r' = int r)
      (map (\<lambda>(c, d). (int k, c, d)) x)) = (if r = k then x else [])"
    by (induction x) (auto simp: case_prod_beta)
  show ?case
    using Cons.IH [of "Suc k"] here
    by (auto simp: nth_Cons' Suc_diff_le comp_def)
qed

lemma select_row_entries:
  "r < length rows \<Longrightarrow>
   map (\<lambda>(r', c, d). (c, d)) (filter (\<lambda>(r', c, d). r' = int r) (entries_of_rows rows)) = rows ! r"
  using select_row_enumerate [of r 0 rows] by (simp add: entries_of_rows_def)

lemma entries_of_buckets:
  "entries_of_rows (transpose_buckets n es) =
     concat (map (\<lambda>c. map (\<lambda>(r, d). (int c, r, d)) (bucket es c)) [0..<n])"
proof -
  have "enumerate 0 (map (bucket es) [0..<n]) = map (\<lambda>c. (c, bucket es c)) [0..<n]"
    by (simp add: enumerate_eq_zip zip_map2 zip_same_conv_map)
  then show ?thesis
    by (simp add: entries_of_rows_def transpose_buckets_def comp_def)
qed

lemma mset_bucket_entries:
  "mset (map (\<lambda>(r, d). (int c, r, d)) (bucket es c)) =
     image_mset (\<lambda>(r, c, d). (c, r, d)) (filter_mset (\<lambda>(r, c', d). c' = int c) (mset es))"
  by (induction es) (auto simp: bucket_def)

lemma mset_entries_of_buckets:
  "mset (entries_of_rows (transpose_buckets n es)) =
     image_mset (\<lambda>(r, c, d). (c, r, d))
       (filter_mset (\<lambda>(r, c, d). 0 \<le> c \<and> c < int n) (mset es))"
proof (induction n)
  case 0
  show ?case by (simp add: entries_of_buckets)
next
  case (Suc n)
  have split: "filter_mset (\<lambda>(r, c, d). 0 \<le> c \<and> c < int (Suc n)) (mset es) =
      filter_mset (\<lambda>(r, c, d). 0 \<le> c \<and> c < int n) (mset es) +
      filter_mset (\<lambda>(r, c', d). c' = int n) (mset es)"
    by (induction es) auto
  show ?case
    using Suc split mset_bucket_entries [of n es] by (simp add: entries_of_buckets)
qed

lemma mset_bucket_transposed:
  assumes "\<forall>e \<in> set es. 0 \<le> fst (snd e) \<and> fst (snd e) < int n"
  shows "mset (bucket (entries_of_rows (transpose_buckets n es)) r) =
     mset (map (\<lambda>(r', c, d). (c, d)) (filter (\<lambda>(r', c, d). r' = int r) es))"
proof -
  have all: "filter_mset (\<lambda>(r, c, d). 0 \<le> c \<and> c < int n) (mset es) = mset es"
    using assms by (induction es) auto
  have "mset (bucket (entries_of_rows (transpose_buckets n es)) r) =
      image_mset (\<lambda>(r, c', d). (r, d)) (filter_mset (\<lambda>(r', c', d). c' = int r)
        (mset (entries_of_rows (transpose_buckets n es))))"
    by (simp add: bucket_def)
  also have "\<dots> = image_mset (\<lambda>(r, c', d). (r, d)) (filter_mset (\<lambda>(r', c', d). c' = int r)
        (image_mset (\<lambda>(r, c, d). (c, r, d)) (mset es)))"
    by (simp add: mset_entries_of_buckets all)
  also have "\<dots> = mset (map (\<lambda>(r', c, d). (c, d)) (filter (\<lambda>(r', c, d). r' = int r) es))"
    by (induction es) auto
  finally show ?thesis .
qed

lemma set_rows_of: "row \<in> set (rows_of ip xs) \<Longrightarrow> set row \<subseteq> set xs"
  by (induction ip xs rule: rows_of.induct)
    (auto simp: slice_def dest: in_set_takeD in_set_dropD)

lemma entries_of_rows_mem:
  assumes "e \<in> set (entries_of_rows rows)"
  shows "0 \<le> fst e \<and> fst e < int (length rows) \<and> snd e \<in> set (rows ! nat (fst e))"
proof -
  from assms obtain r row x where "(r, row) \<in> set (enumerate 0 rows)" "x \<in> set row"
    "e = (int r, x)"
    by (auto simp: entries_of_rows_def)
  then show ?thesis
    by (auto simp: in_set_enumerate_eq)
qed

lemma entries_cols_in_range:
  assumes "list_all (\<lambda>c. 0 \<le> c \<and> c < k) idx" "e \<in> set (csr_entries ip idx dat)"
  shows "0 \<le> fst (snd e) \<and> fst (snd e) < k"
proof -
  let ?rows = "rows_of ip (zip idx dat)"
  from entries_of_rows_mem [of e ?rows] assms(2)
  have r: "nat (fst e) < length ?rows" and m: "snd e \<in> set (?rows ! nat (fst e))"
    by (auto simp: csr_entries_def)
  from r have "?rows ! nat (fst e) \<in> set ?rows" by simp
  from set_rows_of [OF this] m have "snd e \<in> set (zip idx dat)" by blast
  then have "fst (snd e) \<in> set idx"
    by (metis in_set_zipE prod.collapse)
  with assms(1) show ?thesis by (auto simp: list_all_iff)
qed

lemma bucket_rows_in_range:
  assumes "x \<in> set (concat (transpose_buckets n (entries_of_rows rows)))"
  shows "0 \<le> fst x \<and> fst x < int (length rows)"
proof -
  from assms obtain e where "e \<in> set (entries_of_rows rows)" "fst x = fst e"
    by (auto simp: transpose_buckets_def bucket_def)
  with entries_of_rows_mem [of e rows] show ?thesis by simp
qed

lemma transposed_store_read:
  assumes "0 \<le> sint nr'" "length bs = nat (sint nr')"
  shows "read_csr (s @ [p\<lparr>elems := prefix_sums 0 (map length bs)\<rparr>,
        p\<lparr>elems := map fst (concat bs)\<rparr>, p\<lparr>elems := map snd (concat bs)\<rparr>])
      \<lparr>num_rows = nr', num_cols = nc', indptr = Some (length s),
       indices = Some (Suc (length s)), data = Some (Suc (Suc (length s))),
       sorted_flag = f\<rparr> =
     Inr (prefix_sums 0 (map length bs), map fst (concat bs), map snd (concat bs))"
proof -
  have "csr_invariant (sint nr') (prefix_sums 0 (map length bs)) (map fst (concat bs))
      (map snd (concat bs))"
    using assms
    by (simp add: csr_invariant_def length_prefix_sums hd_prefix_sums sorted_prefix_sums
        last_prefix_sums length_concat)
  then show ?thesis
    by (simp add: read_csr_def array_elems_at1 array_elems_at2 array_elems_at3 data_ids_def
        IsNullArray_def)
qed

lemma transposed_store_valid:
  assumes "0 \<le> sint nr'" "length bs = nat (sint nr')"
  shows "(CheckValidity (s @ [p\<lparr>elems := prefix_sums 0 (map length bs)\<rparr>,
        p\<lparr>elems := map fst (concat bs)\<rparr>, p\<lparr>elems := map snd (concat bs)\<rparr>])
      \<lparr>num_rows = nr', num_cols = nc', indptr = Some (length s),
       indices = Some (Suc (length s)), data = Some (Suc (Suc (length s))),
       sorted_flag = f\<rparr> = Inr ()) =
     (no_overflow (dtype p) nr' \<and> no_overflow (dtype p) nc' \<and> sint nr' + 1 < 2 ^ 63)"
  unfolding CheckValidity_Inr_iff using assms
  by (auto simp: deref_append_at1 deref_append_at2 deref_def nth_append length_prefix_sums)

lemma CSRTranspose_unfold:
  assumes "read_csr s m = Inr (ip, idx, dat)" "deref s (indptr m) = Some p"
    "0 \<le> sint (num_cols m)" "list_all (\<lambda>c. 0 \<le> c \<and> c < sint (num_cols m)) idx"
    "bs = transpose_buckets (nat (sint (num_cols m))) (csr_entries ip idx dat)"
  shows "CSRTranspose s m =
     (if no_overflow (dtype p) (num_cols m) \<and> no_overflow (dtype p) (num_rows m) \<and>
         sint (num_cols m) + 1 < 2 ^ 63
      then Inr (s @ [p\<lparr>elems := prefix_sums 0 (map length bs)\<rparr>,
          p\<lparr>elems := map fst (concat bs)\<rparr>, p\<lparr>elems := map snd (concat bs)\<rparr>],
        \<lparr>num_rows = num_cols m, num_cols = num_rows m, indptr = Some (length s),
         indices = Some (Suc (length s)), data = Some (Suc (Suc (length s))),
         sorted_flag = False\<rparr>)
      else Inl (case CheckValidity (s @ [p\<lparr>elems := prefix_sums 0 (map length bs)\<rparr>,
          p\<lparr>elems := map fst (concat bs)\<rparr>, p\<lparr>elems := map snd (concat bs)\<rparr>])
        \<lparr>num_rows = num_cols m, num_cols = num_rows m, indptr = Some (length s),
         indices = Some (Suc (length s)), data = Some (Suc (Suc (length s))),
         sorted_flag = False\<rparr> of Inl e \<Rightarrow> e | Inr _ \<Rightarrow> NullDeref))"
proof -
  have l: "length bs = nat (sint (num_cols m))"
    by (simp add: assms(5) transpose_buckets_def)
  note val = transposed_store_valid [OF assms(3) l, of s p "num_rows m" False]
  have "CSRTranspose s m =
      (case CheckValidity (s @ [p\<lparr>elems := prefix_sums 0 (map length bs)\<rparr>,
          p\<lparr>elems := map fst (concat bs)\<rparr>, p\<lparr>elems := map snd (concat bs)\<rparr>])
        \<lparr>num_rows = num_cols m, num_cols = num_rows m, indptr = Some (length s),
         indices = Some (Suc (length s)), data = Some (Suc (Suc (length s))),
         sorted_flag = False\<rparr> of
       Inl e \<Rightarrow> Inl e
     | Inr _ \<Rightarrow> Inr (s @ [p\<lparr>elems := prefix_sums 0 (map length bs)\<rparr>,
          p\<lparr>elems := map fst (concat bs)\<rparr>, p\<lparr>elems := map snd (concat bs)\<rparr>],
        \<lparr>num_rows = num_cols m, num_cols = num_rows m, indptr = Some (length s),
         indices = Some (Suc (length s)), data = Some (Suc (Suc (length s))),
         sorted_flag = False\<rparr>))"
    using assms(1-4)
    by (simp add: CSRTranspose_def alloc_def Let_def CSRMatrix_new_def assms(5) [symmetric]
        split: sum.splits)
  then show ?thesis
    using val by (auto split: sum.splits)
qed

text \<open>
  C8. When the transposition of a valid matrix returns, the result has the old column
  count as its row count and the old row count as its column count. Transposing the
  result returns as well, with the shape of the original, and every row of the double
  transpose holds the same multiset of (column, data id) entries as that row of the
  original. The sorted flag is not compared.
\<close>

theorem CSRTranspose_involution:
  assumes v: "CheckValidity s m = Inr ()" and t: "CSRTranspose s m = Inr (s1, m1)"
  shows "num_rows m1 = num_cols m \<and> num_cols m1 = num_rows m \<and>
     (\<exists>s2 m2 ip idx dat ip2 idx2 dat2.
        CSRTranspose s1 m1 = Inr (s2, m2) \<and>
        num_rows m2 = num_rows m \<and> num_cols m2 = num_cols m \<and>
        read_csr s m = Inr (ip, idx, dat) \<and> read_csr s2 m2 = Inr (ip2, idx2, dat2) \<and>
        map mset (rows_of ip2 (zip idx2 dat2)) = map mset (rows_of ip (zip idx dat)))"
proof -
  from t obtain p ip idx dat where p: "deref s (indptr m) = Some p"
    and rd: "read_csr s m = Inr (ip, idx, dat)"
    and nc0: "0 \<le> sint (num_cols m)"
    and cols: "list_all (\<lambda>c. 0 \<le> c \<and> c < sint (num_cols m)) idx"
    unfolding CSRTranspose_def
    by (auto split: option.splits sum.splits if_splits)
  from v p have ov: "no_overflow (dtype p) (num_rows m)" "no_overflow (dtype p) (num_cols m)"
    and len: "int (length (elems p)) = sint (num_rows m) + 1" "length (elems p) < 2 ^ 63"
    unfolding CheckValidity_Inr_iff by auto
  from read_csr_indptr [OF rd] p have ip: "elems p = ip" by simp
  note inv = read_csr_invariant [OF rd]
  let ?rows = "rows_of ip (zip idx dat)"
  let ?n = "nat (sint (num_rows m))"
  let ?nc = "nat (sint (num_cols m))"
  have nr0: "0 \<le> sint (num_rows m)"
    using inv by (simp add: csr_invariant_def)
  have nrows: "length ?rows = ?n"
    using len ip by (simp add: length_rows_of)
  have nr63: "sint (num_rows m) + 1 < 2 ^ 63"
    using len by simp
  define bs where "bs = transpose_buckets ?nc (csr_entries ip idx dat)"
  let ?ip1 = "prefix_sums 0 (map length bs)"
  let ?p1 = "p\<lparr>elems := ?ip1\<rparr>"
  let ?s1 = "s @ [?p1, p\<lparr>elems := map fst (concat bs)\<rparr>, p\<lparr>elems := map snd (concat bs)\<rparr>]"
  let ?m1 = "\<lparr>num_rows = num_cols m, num_cols = num_rows m, indptr = Some (length s),
         indices = Some (Suc (length s)), data = Some (Suc (Suc (length s))),
         sorted_flag = False\<rparr>"
  from CSRTranspose_unfold [OF rd p nc0 cols bs_def] t
  have nc63: "sint (num_cols m) + 1 < 2 ^ 63" and s1: "s1 = ?s1" and m1: "m1 = ?m1"
    by (auto split: if_splits)
  have lbs: "length bs = ?nc"
    by (simp add: bs_def transpose_buckets_def)
  have rd1: "read_csr s1 m1 = Inr (?ip1, map fst (concat bs), map snd (concat bs))"
    unfolding s1 m1 by (rule transposed_store_read [OF nc0 lbs])
  have p1: "deref s1 (indptr m1) = Some ?p1"
    by (simp add: s1 m1 deref_append_at1)
  have nc1: "0 \<le> sint (num_cols m1)"
    using nr0 by (simp add: m1)
  have cols1: "list_all (\<lambda>c. 0 \<le> c \<and> c < sint (num_cols m1)) (map fst (concat bs))"
  proof -
    have "0 \<le> fst x \<and> fst x < sint (num_rows m)" if "x \<in> set (concat bs)" for x
      using bucket_rows_in_range [of x ?nc ?rows] that nrows nr0
      by (simp add: bs_def csr_entries_def)
    then show ?thesis
      by (simp add: list_all_iff m1)
  qed
  have rows1: "rows_of ?ip1 (zip (map fst (concat bs)) (map snd (concat bs))) = bs"
    using rows_of_prefix_sums [of "[]" 0 bs] by (simp add: zip_map_fst_snd)
  define bs2 where "bs2 = transpose_buckets (nat (sint (num_cols m1)))
      (csr_entries ?ip1 (map fst (concat bs)) (map snd (concat bs)))"
  have bs2: "bs2 = transpose_buckets ?n (entries_of_rows bs)"
    by (simp add: bs2_def csr_entries_def rows1 m1)
  let ?ip2 = "prefix_sums 0 (map length bs2)"
  let ?s2 = "s1 @ [?p1\<lparr>elems := ?ip2\<rparr>, ?p1\<lparr>elems := map fst (concat bs2)\<rparr>,
      ?p1\<lparr>elems := map snd (concat bs2)\<rparr>]"
  let ?m2 = "\<lparr>num_rows = num_cols m1, num_cols = num_rows m1, indptr = Some (length s1),
         indices = Some (Suc (length s1)), data = Some (Suc (Suc (length s1))),
         sorted_flag = False\<rparr>"
  have t2: "CSRTranspose s1 m1 = Inr (?s2, ?m2)"
    using CSRTranspose_unfold [OF rd1 p1 nc1 cols1 bs2_def] ov nr63
    by (simp add: m1)
  have lbs2: "length bs2 = nat (sint (num_cols m1))"
    by (simp add: bs2_def transpose_buckets_def)
  have rd2: "read_csr ?s2 ?m2 = Inr (?ip2, map fst (concat bs2), map snd (concat bs2))"
    by (rule transposed_store_read [OF nc1 lbs2])
  have rows2: "rows_of ?ip2 (zip (map fst (concat bs2)) (map snd (concat bs2))) = bs2"
    using rows_of_prefix_sums [of "[]" 0 bs2] by (simp add: zip_map_fst_snd)
  have range: "\<forall>e \<in> set (csr_entries ip idx dat). 0 \<le> fst (snd e) \<and> fst (snd e) < int ?nc"
    using entries_cols_in_range [OF cols] nc0 by auto
  have "map mset bs2 = map mset ?rows"
  proof (rule nth_equalityI)
    show "length (map mset bs2) = length (map mset ?rows)"
      using lbs2 nrows by (simp add: m1)
  next
    fix r
    assume "r < length (map mset bs2)"
    then have r: "r < ?n" using lbs2 by (simp add: m1)
    have "bs2 ! r = bucket (entries_of_rows (transpose_buckets ?nc (csr_entries ip idx dat))) r"
      using r by (simp add: bs2 bs_def transpose_buckets_def)
    then have "mset (bs2 ! r) =
        mset (map (\<lambda>(r', c, d). (c, d))
          (filter (\<lambda>(r', c, d). r' = int r) (csr_entries ip idx dat)))"
      using mset_bucket_transposed [OF range, of r] by simp
    also have "\<dots> = mset (?rows ! r)"
      using select_row_entries [of r ?rows] r nrows by (simp add: csr_entries_def)
    finally show "map mset bs2 ! r = map mset ?rows ! r"
      using r lbs2 nrows by (simp add: m1)
  qed
  with rows2 have "map mset (rows_of ?ip2 (zip (map fst (concat bs2)) (map snd (concat bs2)))) =
      map mset ?rows"
    by simp
  with t2 rd rd2 show ?thesis
    by (auto simp: m1)
qed

lemma wide_csr_valid: "CheckValidity example_store wide_csr = Inr ()"
  by (simp add: CheckValidity_def example_store_def wide_csr_def deref_def
      id_tensor_def IsNullArray_def no_overflow_def int64_dtype_def)

lemma wide_read_csr:
  "read_csr example_store wide_csr = Inr ([0, 2, 3, 3, 5], [1, 0, 2, 3, 1], [2, 3, 0, 1, 4])"
  by (simp add: read_csr_def array_elems_def deref_def example_store_def wide_csr_def
      id_tensor_def data_ids_def IsNullArray_def csr_invariant_def)

lemma wide_CSRTranspose:
  "CSRTranspose example_store wide_csr = Inr (transposed_store, transposed_csr)"
  by code_simp

theorem CSRTranspose_involution_witness:
  "CheckValidity example_store wide_csr = Inr () \<and>
   CSRTranspose example_store wide_csr = Inr (transposed_store, transposed_csr) \<and>
   num_rows transposed_csr = num_cols wide_csr \<and>
   num_cols transposed_csr = num_rows wide_csr \<and>
   (\<exists>s2 m2 ip2 idx2 dat2.
      CSRTranspose transposed_store transposed_csr = Inr (s2, m2) \<and>
      num_rows m2 = 4 \<and> num_cols m2 = 5 \<and>
      read_csr s2 m2 = Inr (ip2, idx2, dat2) \<and>
      map mset (rows_of ip2 (zip idx2 dat2)) =
        map mset [[(1, 2), (0, 3)], [(2, 0)], [], [(3, 1), (1, 4)]])"
proof -
  from CSRTranspose_involution [OF wide_csr_valid wide_CSRTranspose] wide_read_csr
  obtain s2 m2 ip2 idx2 dat2 where
    "CSRTranspose transposed_store transposed_csr = Inr (s2, m2)"
    "num_rows m2 = num_rows wide_csr" "num_cols m2 = num_cols wide_csr"
    "read_csr s2 m2 = Inr (ip2, idx2, dat2)"
    "map mset (rows_of ip2 (zip idx2 dat2)) =
       map mset (rows_of [0, 2, 3, 3, 5] (zip [1, 0, 2, 3, 1] [2, 3, 0, 1, 4]))"
    by auto
  moreover have "num_rows wide_csr = 4" "num_cols wide_csr = 5"
    by (simp_all add: wide_csr_def)
  moreover from CSRTranspose_involution [OF wide_csr_valid wide_CSRTranspose]
  have "num_rows transposed_csr = num_cols wide_csr \<and> num_cols transposed_csr = num_rows wide_csr"
    by blast
  ultimately show ?thesis
    using wide_csr_valid wide_CSRTranspose example_rows by auto
qed

end
